theory Spec2Isabelle
  imports Main
begin

section \<open>JavaScript strings\<close>

text \<open>
  Strings are lists of 8-bit code units. \<open>String.prototype.trim\<close> strips the white space
  and line terminator code units at both ends; the ones that fit in eight bits are tab,
  line feed, vertical tab, form feed, carriage return, space and the no-break space.
\<close>

definition isSpace :: "char \<Rightarrow> bool" where
  "isSpace c = (c \<in> set [CHR 0x09, CHR 0x0A, CHR 0x0B, CHR 0x0C, CHR 0x0D, CHR 0x20, CHR 0xA0])"

definition trim :: "string \<Rightarrow> string" where
  "trim s = rev (dropWhile isSpace (rev (dropWhile isSpace s)))"

definition startsWith :: "string \<Rightarrow> string \<Rightarrow> bool" where
  "startsWith s p = (take (length p) s = p)"

text \<open>\<open>xs[i]\<close> on an array: \<open>undefined\<close> (here \<open>None\<close>) outside the index range.\<close>

definition js_index :: "'a list \<Rightarrow> int \<Rightarrow> 'a option" where
  "js_index xs i = (if 0 \<le> i \<and> i < int (length xs) then Some (xs ! nat i) else None)"

definition nl :: string where
  "nl = [CHR 0x0A]"


section \<open>Terminal.jsx\<close>

text \<open>
  The value of a node's \<open>language\<close> property. \<open>renameItem\<close> (FileExplorer.jsx) reads it
  from an object literal, so besides a string it can be a member inherited from
  \<open>Object.prototype\<close>, and it is \<open>undefined\<close> on a renamed folder.
\<close>

datatype language = Lang string | Inherited string | Undefined

text \<open>The \<open>activeFile\<close> prop, as far as the terminal reads it.\<close>

record active_file =
  af_content :: "string option"
  af_language :: language

datatype entry_type = type_running | type_success | type_error

record entry =
  e_command :: string
  e_output :: string
  e_type :: entry_type
  e_working_directory :: "string option"
  e_execution_time :: "int option"

text \<open>
  The state hooks that both revisions of the component declare. \<open>command\<close> is the
  controlled input's value; \<open>None\<close> stands for \<open>undefined\<close>, which
  \<open>setCommand(commandHistory[newIndex])\<close> stores when the index is out of range.
\<close>

record terminal_base =
  command :: "string option"
  history :: "entry list"
  isRunning :: bool
  commandHistory :: "string list"
  historyIndex :: int
  activeFile :: "active_file option"

text \<open>
  First revision (mock execution). \<open>timers\<close> holds the callbacks handed to
  \<open>setTimeout\<close> that have not fired yet; each closes over the trimmed command and the
  \<open>activeFile\<close> prop of the render that submitted it. The delay is
  \<open>500 + Math.random() * 1500\<close>, so pending callbacks may fire in any order.
\<close>

record terminal = terminal_base +
  timers :: "(string \<times> active_file option) list"

definition mockTerminalHistory :: "entry list" where
  "mockTerminalHistory =
    [\<lparr>e_command = ''ls -la'',
      e_output = ''total 12'' @ nl @ ''drwxr-xr-x 3 user user 4096 Jun 15 10:30 .'' @ nl
        @ ''drwxr-xr-x 5 user user 4096 Jun 15 10:25 ..'' @ nl
        @ ''-rw-r--r-- 1 user user  243 Jun 15 10:30 index.html'' @ nl
        @ ''-rw-r--r-- 1 user user  156 Jun 15 10:30 script.js'',
      e_type = type_success, e_working_directory = None, e_execution_time = None\<rparr>,
     \<lparr>e_command = ''python hello.py'',
      e_output = ''Hello from Python!'' @ nl @ ''What'' @ [CHR 0x27] @ ''s your name? Developer'' @ nl
        @ ''Nice to meet you, Developer!'',
      e_type = type_success, e_working_directory = None, e_execution_time = None\<rparr>,
     \<lparr>e_command = ''node script.js'',
      e_output = ''Hello from JavaScript!'' @ nl @ ''Hello, Developer! Welcome to my app.'',
      e_type = type_success, e_working_directory = None, e_execution_time = None\<rparr>,
     \<lparr>e_command = ''invalid-command'',
      e_output = ''bash: invalid-command: command not found'',
      e_type = type_error, e_working_directory = None, e_execution_time = None\<rparr>]"

definition terminal_init :: terminal where
  "terminal_init =
    \<lparr>command = Some [], history = mockTerminalHistory, isRunning = False,
     commandHistory = [], historyIndex = - 1, activeFile = None, timers = []\<rparr>"

text \<open>\<open>executeCommand\<close>, the part that runs before \<open>setTimeout\<close> returns.\<close>

definition executeCommand :: "string \<Rightarrow> terminal \<Rightarrow> terminal" where
  "executeCommand cmd s =
    (let trimmedCmd = trim cmd in
     if trimmedCmd = [] then s
     else s\<lparr>commandHistory := commandHistory s @ [trimmedCmd],
            historyIndex := - 1,
            history := history s @
              [\<lparr>e_command = trimmedCmd, e_output = [], e_type = type_running,
                e_working_directory = None, e_execution_time = None\<rparr>],
            isRunning := True,
            timers := timers s @ [(trimmedCmd, activeFile s)]\<rparr>)"

text \<open>The mock responses of the timeout callback; \<open>None\<close> is the \<open>clear\<close> branch.\<close>

definition help_text :: string where
  "help_text = ''Available commands:'' @ nl
    @ ''ls         - List directory contents'' @ nl
    @ ''pwd        - Show current directory'' @ nl
    @ ''whoami     - Show current user'' @ nl
    @ ''date       - Show current date and time'' @ nl
    @ ''echo       - Display text'' @ nl
    @ ''cat        - Display file contents'' @ nl
    @ ''python/py  - Run Python scripts'' @ nl
    @ ''node/npm   - Run JavaScript/Node.js'' @ nl
    @ ''clear      - Clear terminal'' @ nl
    @ ''help       - Show this help message'' @ nl @ nl
    @ ''Mock terminal - commands are simulated for demo purposes.''"

definition has_language :: "active_file option \<Rightarrow> string \<Rightarrow> bool" where
  "has_language af l = (case af of None \<Rightarrow> False | Some f \<Rightarrow> af_language f = Lang l)"

definition mock_response :: "string \<Rightarrow> active_file option \<Rightarrow> string \<Rightarrow> (string \<times> entry_type) option" where
  "mock_response date af trimmedCmd =
    (if startsWith trimmedCmd ''ls'' then
       Some (''index.html'' @ nl @ ''script.js'' @ nl @ ''styles.css'' @ nl @ ''hello.py'' @ nl
             @ ''README.md'', type_success)
     else if startsWith trimmedCmd ''pwd'' then Some (''/home/user/projects'', type_success)
     else if startsWith trimmedCmd ''whoami'' then Some (''developer'', type_success)
     else if startsWith trimmedCmd ''date'' then Some (date, type_success)
     else if startsWith trimmedCmd ''echo'' then Some (drop 5 trimmedCmd, type_success)
     else if startsWith trimmedCmd ''cat'' \<and> af \<noteq> None then
       Some (case af_content (the af) of
               None \<Rightarrow> ''File is empty''
             | Some c \<Rightarrow> if c = [] then ''File is empty'' else c, type_success)
     else if startsWith trimmedCmd ''python'' \<or> startsWith trimmedCmd ''py'' then
       Some (if has_language af ''python''
             then ''Hello from Python!'' @ nl @ ''Script executed successfully.''
             else ''Python 3.9.7 - Ready to execute Python scripts'', type_success)
     else if startsWith trimmedCmd ''node'' \<or> startsWith trimmedCmd ''npm'' then
       Some (if has_language af ''javascript''
             then ''Hello from JavaScript!'' @ nl @ ''Script executed successfully.''
             else ''Node.js v16.14.0 - Ready to execute JavaScript'', type_success)
     else if trimmedCmd = ''clear'' then None
     else if trimmedCmd = ''help'' then Some (help_text, type_success)
     else Some (''bash: '' @ trimmedCmd @ '': command not found'', type_error))"

text \<open>
  \<open>newHistory[newHistory.length - 1] = {...}\<close>: on an empty array this writes the property
  \<open>"-1"\<close>, which is no element (the length stays 0, and neither \<open>map\<close> nor a later
  spread sees it), so the array stays empty.
\<close>

definition update_last :: "(entry \<Rightarrow> entry) \<Rightarrow> entry list \<Rightarrow> entry list" where
  "update_last f prev = (if prev = [] then [] else butlast prev @ [f (last prev)])"

text \<open>The callback given to \<open>setTimeout\<close>, for the closure \<open>(trimmedCmd, af)\<close>.\<close>

definition executeCommand_timeout :: "string \<Rightarrow> string \<times> active_file option \<Rightarrow> terminal \<Rightarrow> terminal" where
  "executeCommand_timeout date cl s =
    (case mock_response date (snd cl) (fst cl) of
       None \<Rightarrow> s\<lparr>history := [], isRunning := False\<rparr>
     | Some (output, type) \<Rightarrow>
         s\<lparr>history := update_last (\<lambda>e. e\<lparr>e_output := output, e_type := type\<rparr>) (history s),
           isRunning := False\<rparr>)"

definition handleSubmit :: "terminal \<Rightarrow> terminal" where
  "handleSubmit s =
    (case command s of
       None \<Rightarrow> s
     | Some c \<Rightarrow>
         if trim c \<noteq> [] \<and> \<not> isRunning s then (executeCommand c s)\<lparr>command := Some []\<rparr> else s)"

datatype key = ArrowUp | ArrowDown | OtherKey

definition handleKeyDown :: "key \<Rightarrow> 'a terminal_base_scheme \<Rightarrow> 'a terminal_base_scheme" where
  "handleKeyDown k s =
    (case k of
       ArrowUp \<Rightarrow>
         if length (commandHistory s) > 0 then
           let newIndex = (if historyIndex s = - 1 then int (length (commandHistory s)) - 1
                           else max 0 (historyIndex s - 1))
           in s\<lparr>historyIndex := newIndex, command := js_index (commandHistory s) newIndex\<rparr>
         else s
     | ArrowDown \<Rightarrow>
         if historyIndex s \<noteq> - 1 then
           let newIndex = historyIndex s + 1 in
           if newIndex \<ge> int (length (commandHistory s))
           then s\<lparr>historyIndex := - 1, command := Some []\<rparr>
           else s\<lparr>historyIndex := newIndex, command := js_index (commandHistory s) newIndex\<rparr>
         else s
     | OtherKey \<Rightarrow> s)"

text \<open>The header's Clear button of the first revision: \<open>onClick={() => setHistory([])}\<close>.\<close>

definition clearClick :: "terminal \<Rightarrow> terminal" where
  "clearClick s = s\<lparr>history := []\<rparr>"

text \<open>
  The events the component reacts to. \<open>Timeout date i\<close> fires the \<open>i\<close>-th pending
  callback at a moment when \<open>new Date().toString()\<close> is \<open>date\<close>.
\<close>

datatype event =
    Change string
  | Submit
  | KeyDown key
  | ClearClick
  | SetActiveFile "active_file option"
  | Timeout string nat

definition step :: "event \<Rightarrow> terminal \<Rightarrow> terminal" where
  "step ev s =
    (case ev of
       Change v \<Rightarrow> s\<lparr>command := Some v\<rparr>
     | Submit \<Rightarrow> handleSubmit s
     | KeyDown k \<Rightarrow> handleKeyDown k s
     | ClearClick \<Rightarrow> clearClick s
     | SetActiveFile af \<Rightarrow> s\<lparr>activeFile := af\<rparr>
     | Timeout date i \<Rightarrow>
         if i < length (timers s)
         then executeCommand_timeout date (timers s ! i)
                (s\<lparr>timers := take i (timers s) @ drop (Suc i) (timers s)\<rparr>)
         else s)"

fun run :: "event list \<Rightarrow> terminal \<Rightarrow> terminal" where
  "run [] s = s"
| "run (ev # evs) s = run evs (step ev s)"

inductive reachable :: "terminal \<Rightarrow> bool" where
  reachable_init: "reachable terminal_init"
| reachable_step: "reachable s \<Longrightarrow> reachable (step ev s)"

definition running_entries :: "entry list \<Rightarrow> nat" where
  "running_entries h = length (filter (\<lambda>e. e_type e = type_running) h)"

text \<open>
  What every reachable state of the first revision satisfies: at most one callback is
  pending, \<open>isRunning\<close> holds exactly while one is, and only the last record of
  \<open>history\<close> can be of type \<open>running\<close>, and only while \<open>isRunning\<close> holds.
\<close>

definition terminal_inv :: "terminal \<Rightarrow> bool" where
  "terminal_inv s =
    (length (timers s) \<le> 1 \<and> isRunning s = (timers s \<noteq> []) \<and>
     running_entries (butlast (history s)) = 0 \<and>
     (if isRunning s then True else running_entries (history s) = 0))"

text \<open>Typing a command, submitting it, and letting its callback fire.\<close>

definition submit_and_complete :: "string \<Rightarrow> string \<Rightarrow> terminal \<Rightarrow> terminal" where
  "submit_and_complete date c s = step (Timeout date 0) (step Submit (step (Change c) s))"

fun run_commands :: "string \<Rightarrow> string list \<Rightarrow> terminal \<Rightarrow> terminal" where
  "run_commands date [] s = s"
| "run_commands date (c # cs) s = run_commands date cs (submit_and_complete date c s)"

text \<open>The record a completed command leaves in \<open>history\<close>.\<close>

definition finished_entry :: "string \<Rightarrow> active_file option \<Rightarrow> string \<Rightarrow> entry" where
  "finished_entry date af c =
    (case mock_response date af (trim c) of
       None \<Rightarrow> \<lparr>e_command = trim c, e_output = [], e_type = type_running,
                e_working_directory = None, e_execution_time = None\<rparr>
     | Some (output, type) \<Rightarrow>
         \<lparr>e_command = trim c, e_output = output, e_type = type,
          e_working_directory = None, e_execution_time = None\<rparr>)"


subsection \<open>Second revision: commands run by the backend\<close>

text \<open>
  \<open>requests\<close> holds the calls of \<open>terminalAPI.executeCommand\<close> that have not settled;
  each closes over the trimmed command and the \<open>workingDirectory\<close> of the render that
  submitted it.
\<close>

record api_terminal = terminal_base +
  workingDirectory :: string
  error :: "string option"
  requests :: "(string \<times> string) list"

text \<open>\<open>response.command\<close> of the backend; \<open>execution_time\<close> is a number that is only displayed.\<close>

record api_result =
  r_command :: string
  r_output :: string
  r_exit_code :: int
  r_working_directory :: string
  r_execution_time :: "int option"

definition api_terminal_init :: api_terminal where
  "api_terminal_init =
    \<lparr>command = Some [], history = [], isRunning = False, commandHistory = [],
     historyIndex = - 1, activeFile = None, workingDirectory = ''/tmp/codeeditor'',
     error = None, requests = []\<rparr>"

definition exit_type :: "int \<Rightarrow> entry_type" where
  "exit_type c = (if c = 0 then type_success else type_error)"

text \<open>\<open>loadHistory\<close>, once \<open>terminalAPI.getHistory(20)\<close> has answered with \<open>rs\<close>.\<close>

definition loadHistory :: "api_result list \<Rightarrow> api_terminal \<Rightarrow> api_terminal" where
  "loadHistory rs s =
    s\<lparr>history := map (\<lambda>r. \<lparr>e_command = r_command r, e_output = r_output r,
                             e_type = exit_type (r_exit_code r),
                             e_working_directory = Some (r_working_directory r),
                             e_execution_time = r_execution_time r\<rparr>) rs\<rparr>"

definition api_executeCommand :: "string \<Rightarrow> api_terminal \<Rightarrow> api_terminal" where
  "api_executeCommand cmd s =
    (let trimmedCmd = trim cmd in
     if trimmedCmd = [] then s
     else s\<lparr>commandHistory := commandHistory s @ [trimmedCmd],
            historyIndex := - 1,
            history := history s @
              [\<lparr>e_command = trimmedCmd, e_output = [], e_type = type_running,
                e_working_directory = Some (workingDirectory s), e_execution_time = None\<rparr>],
            isRunning := True,
            error := None,
            requests := requests s @ [(trimmedCmd, workingDirectory s)]\<rparr>)"

text \<open>The \<open>try\<close> block after the \<open>await\<close>, followed by \<open>finally\<close>.\<close>

definition api_executeCommand_resolved :: "api_result \<Rightarrow> api_terminal \<Rightarrow> api_terminal" where
  "api_executeCommand_resolved r s =
    (let s1 = s\<lparr>history := update_last
                  (\<lambda>_. \<lparr>e_command = r_command r, e_output = r_output r,
                         e_type = exit_type (r_exit_code r),
                         e_working_directory = Some (r_working_directory r),
                         e_execution_time = r_execution_time r\<rparr>) (history s)\<rparr>;
         s2 = (if r_exit_code r = 0 then s1\<lparr>workingDirectory := r_working_directory r\<rparr> else s1)
     in s2\<lparr>isRunning := False\<rparr>)"

text \<open>The \<open>catch\<close> block, for the closure \<open>(trimmedCmd, workingDirectory)\<close>, followed by \<open>finally\<close>.\<close>

definition api_executeCommand_rejected :: "string \<Rightarrow> string \<times> string \<Rightarrow> api_terminal \<Rightarrow> api_terminal" where
  "api_executeCommand_rejected message cl s =
    s\<lparr>error := Some ''Failed to execute command'',
      history := update_last
        (\<lambda>_. \<lparr>e_command = fst cl, e_output = ''Error: '' @ message, e_type = type_error,
               e_working_directory = Some (snd cl), e_execution_time = None\<rparr>) (history s),
      isRunning := False\<rparr>"

definition api_handleSubmit :: "api_terminal \<Rightarrow> api_terminal" where
  "api_handleSubmit s =
    (case command s of
       None \<Rightarrow> s
     | Some c \<Rightarrow>
         if trim c \<noteq> [] \<and> \<not> isRunning s then (api_executeCommand c s)\<lparr>command := Some []\<rparr> else s)"

text \<open>
  \<open>clearTerminal\<close>: \<open>setHistory([])\<close>, then \<open>terminalAPI.clearHistory()\<close>, whose failure is
  logged to the console and changes no state of the component.
\<close>

definition clearTerminal :: "api_terminal \<Rightarrow> api_terminal" where
  "clearTerminal s = s\<lparr>history := []\<rparr>"

datatype api_event =
    ApiChange string
  | ApiSubmit
  | ApiKeyDown key
  | ApiClearClick
  | ApiLoadHistory "api_result list"
  | ApiResolved nat api_result
  | ApiRejected nat string

text \<open>The Clear button of this revision is disabled while a command runs.\<close>

definition api_step :: "api_event \<Rightarrow> api_terminal \<Rightarrow> api_terminal" where
  "api_step ev s =
    (case ev of
       ApiChange v \<Rightarrow> s\<lparr>command := Some v\<rparr>
     | ApiSubmit \<Rightarrow> api_handleSubmit s
     | ApiKeyDown k \<Rightarrow> handleKeyDown k s
     | ApiClearClick \<Rightarrow> if isRunning s then s else clearTerminal s
     | ApiLoadHistory rs \<Rightarrow> loadHistory rs s
     | ApiResolved i r \<Rightarrow>
         if i < length (requests s)
         then api_executeCommand_resolved r
                (s\<lparr>requests := take i (requests s) @ drop (Suc i) (requests s)\<rparr>)
         else s
     | ApiRejected i message \<Rightarrow>
         if i < length (requests s)
         then api_executeCommand_rejected message (requests s ! i)
                (s\<lparr>requests := take i (requests s) @ drop (Suc i) (requests s)\<rparr>)
         else s)"

fun api_run :: "api_event list \<Rightarrow> api_terminal \<Rightarrow> api_terminal" where
  "api_run [] s = s"
| "api_run (ev # evs) s = api_run evs (api_step ev s)"

inductive api_reachable :: "api_terminal \<Rightarrow> bool" where
  api_reachable_init: "api_reachable api_terminal_init"
| api_reachable_step: "api_reachable s \<Longrightarrow> api_reachable (api_step ev s)"

section \<open>FileExplorer.jsx (first revision) and the tree it edits\<close>

text \<open>
  A node of the tree that App keeps in its \<open>fileSystem\<close> state: an object with \<open>id\<close>,
  \<open>name\<close> and \<open>type\<close>, a file's \<open>language\<close> and \<open>content\<close>, a folder's \<open>children\<close>.
  A property an object does not have reads as \<open>undefined\<close>: \<open>None\<close>, or \<open>Undefined\<close> for
  the language.
\<close>

datatype item =
  Item (item_id: string) (item_name: string) (item_type: string) (item_language: language)
    (item_content: "string option") (item_children: "item list option")

text \<open>The root object; every operation reads and rebuilds its \<open>children\<close> array.\<close>

record file_system =
  fs_id :: string
  fs_name :: string
  fs_type :: string
  fs_children :: "item list"

text \<open>\<open>item.children || []\<close>\<close>

definition children_or_empty :: "item \<Rightarrow> item list" where
  "children_or_empty it = (case item_children it of None \<Rightarrow> [] | Some cs \<Rightarrow> cs)"

text \<open>Decimal digits of a number, as the template literal \<open>`file_${Date.now()}`\<close> prints it.\<close>

definition digit_char :: "nat \<Rightarrow> char" where
  "digit_char d = ''0123456789'' ! d"

fun string_of_nat :: "nat \<Rightarrow> string" where
  "string_of_nat n =
    (if n < 10 then [digit_char n]
     else string_of_nat (n div 10) @ [digit_char (n mod 10)])"

definition newFile :: "nat \<Rightarrow> item" where
  "newFile now =
    Item (''file_'' @ string_of_nat now) ''untitled.txt'' ''file'' (Lang ''plaintext'') (Some []) None"

text \<open>
  \<open>updateTree\<close> of \<open>createFile\<close>: \<open>items.map\<close> with the callback \<open>createFile_item\<close>, which
  appends to the node whose id is \<open>parentId\<close> and otherwise descends into \<open>children\<close>.
\<close>

fun createFile_item :: "string \<Rightarrow> item \<Rightarrow> item \<Rightarrow> item"
  and createFile_updateTree :: "string \<Rightarrow> item \<Rightarrow> item list \<Rightarrow> item list" where
  "createFile_item parentId nf (Item i n t l c ch) =
    (if i = parentId then
       Item i n t l c (Some ((case ch of None \<Rightarrow> [] | Some cs \<Rightarrow> cs) @ [nf]))
     else (case ch of
             Some cs \<Rightarrow> Item i n t l c (Some (createFile_updateTree parentId nf cs))
           | None \<Rightarrow> Item i n t l c ch))"
| "createFile_updateTree parentId nf [] = []"
| "createFile_updateTree parentId nf (x # xs) =
    createFile_item parentId nf x # createFile_updateTree parentId nf xs"

definition createFile :: "file_system \<Rightarrow> string \<Rightarrow> nat \<Rightarrow> file_system" where
  "createFile fileSystem parentId now =
    fileSystem\<lparr>fs_children :=
      (if parentId = ''root'' then fs_children fileSystem @ [newFile now]
       else createFile_updateTree parentId (newFile now) (fs_children fileSystem))\<rparr>"

text \<open>
  \<open>newName.split('.').pop().toLowerCase()\<close>: the text after the last dot, or the whole
  name when it has no dot. Of the 8-bit code units, \<open>toLowerCase\<close> changes A to Z and the
  Latin-1 capitals.
\<close>

definition split_pop :: "string \<Rightarrow> string" where
  "split_pop s = rev (takeWhile (\<lambda>c. c \<noteq> CHR ''.'') (rev s))"

definition lower_char :: "char \<Rightarrow> char" where
  "lower_char c =
    (let n = (of_char c :: nat) in
     if (65 \<le> n \<and> n \<le> 90) \<or> (192 \<le> n \<and> n \<le> 222 \<and> n \<noteq> 215) then char_of (n + 32) else c)"

definition toLowerCase :: "string \<Rightarrow> string" where
  "toLowerCase s = map lower_char s"

definition langMap :: "(string \<times> string) list" where
  "langMap =
    [(''js'', ''javascript''), (''jsx'', ''javascript''), (''ts'', ''typescript''),
     (''tsx'', ''typescript''), (''py'', ''python''), (''html'', ''html''), (''css'', ''css''),
     (''java'', ''java''), (''cpp'', ''cpp''), (''c'', ''c''), (''go'', ''go''), (''rs'', ''rust''),
     (''php'', ''php''), (''rb'', ''ruby'')]"

text \<open>
  \<open>langMap\<close> is an object literal, so \<open>langMap[ext]\<close> also finds what the literal inherits
  from \<open>Object.prototype\<close>: functions, and for \<open>__proto__\<close> the prototype object itself.
\<close>

definition object_prototype_keys :: "string list" where
  "object_prototype_keys =
    [''constructor'', ''__defineGetter__'', ''__defineSetter__'', ''hasOwnProperty'',
     ''__lookupGetter__'', ''__lookupSetter__'', ''isPrototypeOf'', ''propertyIsEnumerable'',
     ''toString'', ''valueOf'', ''__proto__'', ''toLocaleString'']"

definition langMap_get :: "string \<Rightarrow> language" where
  "langMap_get ext =
    (case map_of langMap ext of
       Some l \<Rightarrow> Lang l
     | None \<Rightarrow> if ext \<in> set object_prototype_keys then Inherited ext else Undefined)"

text \<open>Truthiness: an empty string and \<open>undefined\<close> are falsy, functions and objects truthy.\<close>

definition truthy :: "language \<Rightarrow> bool" where
  "truthy v = (case v of Lang l \<Rightarrow> l \<noteq> [] | Inherited _ \<Rightarrow> True | Undefined \<Rightarrow> False)"

text \<open>\<open>langMap[ext] || 'plaintext'\<close>, for the extension of \<open>newName\<close>.\<close>

definition language_of_name :: "string \<Rightarrow> language" where
  "language_of_name newName =
    (let ext = toLowerCase (split_pop newName); v = langMap_get ext
     in if truthy v then v else Lang ''plaintext'')"

text \<open>\<open>updateTree\<close> of \<open>renameItem\<close>, with the callback of its \<open>items.map\<close>.\<close>

fun renameItem_item :: "string \<Rightarrow> string \<Rightarrow> item \<Rightarrow> item"
  and renameItem_updateTree :: "string \<Rightarrow> string \<Rightarrow> item list \<Rightarrow> item list" where
  "renameItem_item itemId newName (Item i n t l c ch) =
    (if i = itemId then
       Item i newName t (if t = ''file'' then language_of_name newName else Undefined) c ch
     else (case ch of
             Some cs \<Rightarrow> Item i n t l c (Some (renameItem_updateTree itemId newName cs))
           | None \<Rightarrow> Item i n t l c ch))"
| "renameItem_updateTree itemId newName [] = []"
| "renameItem_updateTree itemId newName (x # xs) =
    renameItem_item itemId newName x # renameItem_updateTree itemId newName xs"

definition renameItem :: "file_system \<Rightarrow> string \<Rightarrow> string \<Rightarrow> file_system" where
  "renameItem fileSystem itemId newName =
    fileSystem\<lparr>fs_children := renameItem_updateTree itemId newName (fs_children fileSystem)\<rparr>"

text \<open>\<open>findFileById\<close> of App: the first node with the id, in depth-first order.\<close>

fun findFileById :: "item list \<Rightarrow> string \<Rightarrow> item option" where
  "findFileById [] fileId = None"
| "findFileById (Item i n t l c ch # items) fileId =
    (if i = fileId then Some (Item i n t l c ch)
     else (case ch of
             Some cs \<Rightarrow>
               (case findFileById cs fileId of
                  Some found \<Rightarrow> Some found
                | None \<Rightarrow> findFileById items fileId)
           | None \<Rightarrow> findFileById items fileId))"

text \<open>
  A small tree: the root holds the folder \<open>project1\<close>, which holds one file created by
  \<open>createFile\<close> at time 1 and renamed to \<open>a.js\<close>, and one created at time 2.
\<close>

definition example_tree :: file_system where
  "example_tree =
    \<lparr>fs_id = ''root'', fs_name = ''Projects'', fs_type = ''folder'',
     fs_children =
       [Item ''project1'' ''my-web-app'' ''folder'' Undefined None
          (Some [Item ''file_1'' ''a.js'' ''file'' (Lang ''javascript'') (Some []) None,
                 Item ''file_2'' ''untitled.txt'' ''file'' (Lang ''plaintext'') (Some []) None])]\<rparr>"

section \<open>CodeEditor.jsx (second revision) under KodeXApp\<close>

text \<open>
  The file object the backend returns and KodeXApp keeps in its \<open>activeFile\<close> state.
  Hook dependencies are compared with \<open>Object.is\<close>, so an object counts by its identity:
  a reference is the number of the allocation together with the object's value.
\<close>

record file_obj =
  file_id :: string
  file_name :: string
  file_path :: string
  file_language :: string
  file_content :: "string option"
  file_modified_at :: "string option"

type_synonym file_ref = "nat \<times> file_obj"

text \<open>
  What \<open>saveFile\<close> of one render closes over: the \<open>activeFile\<close> prop and the \<open>hasChanges\<close>
  and \<open>content\<close> state of that render. The \<open>onFileUpdate\<close> prop it also closes over is
  \<open>handleFileUpdate\<close> of the parent's render that passed this \<open>activeFile\<close>.
\<close>

record closure =
  cl_activeFile :: "file_ref option"
  cl_hasChanges :: bool
  cl_content :: string

text \<open>
  The component instance with what surrounds it. \<open>content\<close>, \<open>hasChanges\<close>, \<open>isSaving\<close>
  and \<open>lastSaved\<close> are its state hooks; \<open>editorFile\<close> is its \<open>activeFile\<close> prop, that is
  the parent's state; \<open>saveTimeoutRef\<close> is the ref. \<open>pending_timers\<close> are the
  \<open>setTimeout\<close> callbacks not yet fired or cleared (id, due time, closure) and
  \<open>pending_saves\<close> the calls of \<open>fileAPI.updateFile\<close> not yet settled.
  \<open>effectA_deps\<close> and \<open>effectB_deps\<close> are the dependency arrays of the last run of the
  two effects, \<open>[activeFile]\<close> and \<open>[content, hasChanges, activeFile]\<close>.
  \<open>updateFile_calls\<close> records every \<open>fileAPI.updateFile(path, content)\<close> issued and
  \<open>console_errors\<close> every \<open>console.error\<close>. cursorPosition and aiSuggestions, which no
  effect and no save reads, are left out.
\<close>

record editor =
  content :: string
  hasChanges :: bool
  isSaving :: bool
  lastSaved :: "string option"
  editorFile :: "file_ref option"
  saveTimeoutRef :: "nat option"
  pending_timers :: "(nat \<times> nat \<times> closure) list"
  pending_saves :: "closure list"
  effectA_deps :: "nat option option"
  effectB_deps :: "(string \<times> bool \<times> nat option) option"
  clock :: nat
  next_timer :: nat
  next_object :: nat
  updateFile_calls :: "(string \<times> string) list"
  console_errors :: "string list"

text \<open>The instance after its first render with no file selected.\<close>

definition editor_init :: editor where
  "editor_init =
    \<lparr>content = [], hasChanges = False, isSaving = False, lastSaved = None, editorFile = None,
     saveTimeoutRef = None, pending_timers = [], pending_saves = [],
     effectA_deps = Some None, effectB_deps = Some ([], False, None),
     clock = 0, next_timer = 1, next_object = 0, updateFile_calls = [], console_errors = []\<rparr>"

definition current_closure :: "editor \<Rightarrow> closure" where
  "current_closure s =
    \<lparr>cl_activeFile = editorFile s, cl_hasChanges = hasChanges s, cl_content = content s\<rparr>"

text \<open>\<open>if (saveTimeoutRef.current) clearTimeout(saveTimeoutRef.current)\<close>\<close>

definition clearTimeout_ref :: "editor \<Rightarrow> editor" where
  "clearTimeout_ref s =
    (case saveTimeoutRef s of
       None \<Rightarrow> s
     | Some t \<Rightarrow> s\<lparr>pending_timers := filter (\<lambda>p. fst p \<noteq> t) (pending_timers s)\<rparr>)"

text \<open>
  The body of the auto-save effect, run for the render whose closure is \<open>cl\<close>: clear the
  previous timeout, then schedule \<open>saveFile\<close> of this render 2000 ms from now.
\<close>

definition autosave_effect :: "closure \<Rightarrow> editor \<Rightarrow> editor" where
  "autosave_effect cl s =
    (if cl_hasChanges cl \<and> cl_activeFile cl \<noteq> None then
       let s1 = clearTimeout_ref s in
       s1\<lparr>saveTimeoutRef := Some (next_timer s1),
          pending_timers := pending_timers s1 @ [(next_timer s1, clock s1 + 2000, cl)],
          next_timer := Suc (next_timer s1)\<rparr>
     else s)"

text \<open>
  One commit: React compares each effect's dependencies with those of its last run; for
  the effects that changed it first runs the cleanups (only the auto-save effect returns
  one), then the bodies in order. The first effect's body calls the setters
  \<open>setContent(activeFile.content || '')\<close>, \<open>setHasChanges(false)\<close> and
  \<open>setLastSaved(activeFile.modified_at)\<close>, which take effect in the next render, so the
  auto-save effect of this commit still sees this render's values.
\<close>

definition commit_pass :: "editor \<Rightarrow> editor" where
  "commit_pass s =
    (let dA = map_option fst (editorFile s);
         dB = (content s, hasChanges s, dA);
         runA = (effectA_deps s \<noteq> Some dA);
         runB = (effectB_deps s \<noteq> Some dB);
         s1 = (if runB \<and> effectB_deps s \<noteq> None then clearTimeout_ref s else s);
         s2 = (if runB then autosave_effect (current_closure s) s1 else s1);
         s3 = s2\<lparr>effectA_deps := Some dA, effectB_deps := Some dB\<rparr>
     in if runA then
          (case editorFile s of
             None \<Rightarrow> s3
           | Some r \<Rightarrow>
               s3\<lparr>content := (case file_content (snd r) of None \<Rightarrow> [] | Some c \<Rightarrow> c),
                  hasChanges := False,
                  lastSaved := file_modified_at (snd r)\<rparr>)
        else s3)"

text \<open>
  Rendering after an event: the commit, and the commit of the re-render that the first
  effect's setters cause. A further commit would change nothing (lemma
  \<open>render_stable\<close> below), so this is where React stops.
\<close>

definition render :: "editor \<Rightarrow> editor" where
  "render s = commit_pass (commit_pass s)"

text \<open>\<open>handleFileSelect\<close> of KodeXApp, called with the file just fetched.\<close>

definition handleFileSelect :: "file_obj \<Rightarrow> editor \<Rightarrow> editor" where
  "handleFileSelect f s =
    render (s\<lparr>editorFile := Some (next_object s, f), next_object := Suc (next_object s)\<rparr>)"

text \<open>
  \<open>handleTextChange\<close>: \<open>setContent\<close>, \<open>setHasChanges(true)\<close>, and \<open>onFileChange\<close>, which is
  \<open>handleFileChange\<close> of KodeXApp: \<open>setActiveFile({ ...activeFile, content: newContent })\<close>,
  a new object. The three updates are batched into one render.
\<close>

definition handleTextChange :: "string \<Rightarrow> editor \<Rightarrow> editor" where
  "handleTextChange newContent s =
    render (s\<lparr>content := newContent, hasChanges := True,
              editorFile := (case editorFile s of
                               None \<Rightarrow> None
                             | Some r \<Rightarrow> Some (next_object s, (snd r)\<lparr>file_content := Some newContent\<rparr>)),
              next_object := Suc (next_object s)\<rparr>)"

text \<open>
  \<open>insertText\<close>, for the textarea's selection \<open>start\<close> to \<open>end\<close>; the textarea exists only
  while a file is open. It does not call \<open>onFileChange\<close>.
\<close>

definition insertText :: "nat \<Rightarrow> nat \<Rightarrow> string \<Rightarrow> editor \<Rightarrow> editor" where
  "insertText start end' text s =
    (if editorFile s = None then s
     else render (s\<lparr>content := take start (content s) @ text @ drop end' (content s),
                    hasChanges := True\<rparr>))"

text \<open>\<open>saveFile\<close> of the render with closure \<open>cl\<close>, up to the \<open>await\<close>.\<close>

definition saveFile :: "closure \<Rightarrow> editor \<Rightarrow> editor" where
  "saveFile cl s =
    (case cl_activeFile cl of
       None \<Rightarrow> s
     | Some r \<Rightarrow>
         if \<not> cl_hasChanges cl then s
         else render (s\<lparr>isSaving := True,
                        updateFile_calls := updateFile_calls s @ [(file_path (snd r), cl_content cl)],
                        pending_saves := pending_saves s @ [cl]\<rparr>))"

text \<open>Ctrl+S and the Save button call \<open>saveFile\<close> of the current render.\<close>

definition manual_save :: "editor \<Rightarrow> editor" where
  "manual_save s = saveFile (current_closure s) s"

text \<open>
  The \<open>i\<close>-th pending \<open>updateFile\<close> resolves at a moment when \<open>new Date().toISOString()\<close>
  is \<open>now\<close>: \<open>setHasChanges(false)\<close>, \<open>setLastSaved\<close>, \<open>onFileUpdate\<close> (which is
  \<open>handleFileUpdate\<close> of KodeXApp and sets a new \<open>activeFile\<close> object), then \<open>finally\<close>.
\<close>

definition save_resolved :: "nat \<Rightarrow> string \<Rightarrow> editor \<Rightarrow> editor" where
  "save_resolved i now s =
    (if i < length (pending_saves s) then
       let cl = pending_saves s ! i in
       render (s\<lparr>pending_saves := take i (pending_saves s) @ drop (Suc i) (pending_saves s),
                 hasChanges := False,
                 lastSaved := Some now,
                 editorFile := (case cl_activeFile cl of
                                  None \<Rightarrow> editorFile s
                                | Some r \<Rightarrow> Some (next_object s, (snd r)\<lparr>file_content := Some (cl_content cl)\<rparr>)),
                 next_object := Suc (next_object s),
                 isSaving := False\<rparr>)
     else s)"

text \<open>The \<open>i\<close>-th pending \<open>updateFile\<close> rejects: the \<open>catch\<close> block, then \<open>finally\<close>.\<close>

definition save_rejected :: "nat \<Rightarrow> string \<Rightarrow> editor \<Rightarrow> editor" where
  "save_rejected i message s =
    (if i < length (pending_saves s) then
       render (s\<lparr>pending_saves := take i (pending_saves s) @ drop (Suc i) (pending_saves s),
                 console_errors := console_errors s @ [''Error saving file: '' @ message],
                 isSaving := False\<rparr>)
     else s)"

text \<open>The timer \<open>t\<close> fires, if it is still pending: it runs the \<open>saveFile\<close> it was given.\<close>

definition fire_timer :: "nat \<Rightarrow> editor \<Rightarrow> editor" where
  "fire_timer t s =
    (case find (\<lambda>p. fst p = t) (pending_timers s) of
       None \<Rightarrow> s
     | Some p \<Rightarrow>
         saveFile (snd (snd p)) (s\<lparr>pending_timers := filter (\<lambda>p. fst p \<noteq> t) (pending_timers s)\<rparr>))"

text \<open>\<open>dt\<close> milliseconds pass with no other event: the timers that are due fire in order.\<close>

definition advance :: "nat \<Rightarrow> editor \<Rightarrow> editor" where
  "advance dt s =
    (let s1 = s\<lparr>clock := clock s + dt\<rparr>;
         due = map fst (filter (\<lambda>p. fst (snd p) \<le> clock s1) (pending_timers s1))
     in foldl (\<lambda>s t. fire_timer t s) s1 due)"

datatype editor_event =
    FileSelect file_obj
  | TextChange string
  | InsertText nat nat string
  | ManualSave
  | Advance nat
  | SaveResolved nat string
  | SaveRejected nat string

definition editor_step :: "editor_event \<Rightarrow> editor \<Rightarrow> editor" where
  "editor_step ev s =
    (case ev of
       FileSelect f \<Rightarrow> handleFileSelect f s
     | TextChange v \<Rightarrow> handleTextChange v s
     | InsertText a b t \<Rightarrow> insertText a b t s
     | ManualSave \<Rightarrow> manual_save s
     | Advance dt \<Rightarrow> advance dt s
     | SaveResolved i now \<Rightarrow> save_resolved i now s
     | SaveRejected i message \<Rightarrow> save_rejected i message s)"

fun editor_run :: "editor_event list \<Rightarrow> editor \<Rightarrow> editor" where
  "editor_run [] s = s"
| "editor_run (ev # evs) s = editor_run evs (editor_step ev s)"

inductive editor_reachable :: "editor \<Rightarrow> bool" where
  editor_reachable_init: "editor_reachable editor_init"
| editor_reachable_step: "editor_reachable s \<Longrightarrow> editor_reachable (editor_step ev s)"

text \<open>A file as the backend serves it, for the examples.\<close>

definition example_file :: file_obj where
  "example_file =
    \<lparr>file_id = ''f1'', file_name = ''a.js'', file_path = ''/a.js'', file_language = ''javascript'',
     file_content = Some ''let a'', file_modified_at = Some ''2024-01-01T00:00:00.000Z''\<rparr>"

text \<open>
  What holds after every event: each effect's recorded dependencies are the current
  ones (nothing is left to commit), the \<open>activeFile\<close> object was allocated before
  \<open>next_object\<close>, and every pending timer is the one \<open>saveTimeoutRef\<close> holds.
\<close>

definition timers_ok :: "editor \<Rightarrow> bool" where
  "timers_ok s = list_all (\<lambda>p. saveTimeoutRef s = Some (fst p)) (pending_timers s)"

definition refs_ok :: "editor \<Rightarrow> bool" where
  "refs_ok s =
    (pred_option (\<lambda>r. fst r < next_object s) (editorFile s) \<and> timers_ok s)"

definition committed :: "editor \<Rightarrow> bool" where
  "committed s =
    (effectA_deps s = Some (map_option fst (editorFile s)) \<and>
     effectB_deps s = Some (content s, hasChanges s, map_option fst (editorFile s)))"

definition editor_inv :: "editor \<Rightarrow> bool" where
  "editor_inv s = (committed s \<and> refs_ok s)"

text \<open>Typing into the textarea and letting time pass, with no other event.\<close>

fun typing_event :: "editor_event \<Rightarrow> bool" where
  "typing_event (TextChange v) = True"
| "typing_event (Advance dt) = True"
| "typing_event ev = False"

section \<open>PathIndex and FileTree\<close>

text \<open>
  The sources hold the callers (\<open>fileAPI\<close> sends a node's \<open>path\<close> to the backend) but not
  the code that resolves a path or computes one, so this section follows the
  specification: its data model (section 3), PathIndex (4.1), the FileTree operations
  (4.2) and the arena of its design notes (9). \<open>moveNode\<close>, which the specification leaves
  optional and does not give a rule for name collisions, is not part of the model.
\<close>

text \<open>Modelled from the spec: the \<open>kind\<close> of a Node, \<open>File | Folder\<close>.\<close>

datatype kind = File | Folder

text \<open>Modelled from the spec: the error kinds of section 7 that the tree operations return.\<close>

datatype fs_error =
  NotFound | DuplicateName | InvalidName | ParentNotFound | WrongKind | CyclicMove | CannotDeleteRoot

text \<open>
  Modelled from the spec: a Node of the arena, with its name, kind, content, the ordered
  ids of its children and the back-reference to its parent (none for the root). The
  node's id is its index in the arena. \<open>language\<close> and \<open>modifiedAt\<close>, which no path
  operation reads, are left out, and \<open>path\<close> is derived (\<open>computePath\<close>).
\<close>

record node =
  node_name :: string
  node_kind :: kind
  node_parent :: "nat option"
  node_children :: "nat list"
  node_content :: string

text \<open>
  Modelled from the spec: a tree snapshot, the arena of nodes indexed by id, the id of
  the root, and the next id to hand out (ids are never reused).
\<close>

record file_tree =
  tree_nodes :: "nat \<Rightarrow> node option"
  tree_root :: nat
  tree_next_id :: nat

text \<open>Modelled from the spec: the tree at workspace initialisation, an empty root Folder.\<close>

definition empty_tree :: file_tree where
  "empty_tree =
    \<lparr>tree_nodes = (\<lambda>i. if i = 0 then
         Some \<lparr>node_name = [], node_kind = Folder, node_parent = None, node_children = [],
               node_content = []\<rparr> else None),
     tree_root = 0, tree_next_id = 1\<rparr>"

text \<open>
  Modelled from the spec: a name is non-empty and does not contain the path separator
  \<open>/\<close>.
\<close>

definition valid_name :: "string \<Rightarrow> bool" where
  "valid_name n = (n \<noteq> [] \<and> CHR ''/'' \<notin> set n)"

text \<open>Modelled from the spec: the name of the node with a given id (empty for no node).\<close>

definition name_of :: "file_tree \<Rightarrow> nat \<Rightarrow> string" where
  "name_of t i = (case tree_nodes t i of None \<Rightarrow> [] | Some n \<Rightarrow> node_name n)"

text \<open>
  Modelled from the spec: the child-name lookup of \<open>resolve\<close>, a case-sensitive exact
  match among the ids of a child list.
\<close>

definition lookup_child :: "file_tree \<Rightarrow> nat list \<Rightarrow> string \<Rightarrow> nat option" where
  "lookup_child t cs seg = find (\<lambda>c. tree_nodes t c \<noteq> None \<and> name_of t c = seg) cs"

text \<open>
  Modelled from the spec: the walk of \<open>resolve\<close> from a node along the segments; it
  stops with no result where a segment is absent or the node walked through is not a
  Folder.
\<close>

fun walk :: "file_tree \<Rightarrow> nat \<Rightarrow> string list \<Rightarrow> nat option" where
  "walk t cur [] = Some cur"
| "walk t cur (seg # segs) =
    (case tree_nodes t cur of
       None \<Rightarrow> None
     | Some n \<Rightarrow>
         if node_kind n \<noteq> Folder then None
         else (case lookup_child t (node_children n) seg of
                 None \<Rightarrow> None
               | Some c \<Rightarrow> walk t c segs))"

text \<open>Modelled from the spec: splitting a string on the separator \<open>/\<close>.\<close>

fun split_sep :: "string \<Rightarrow> string list" where
  "split_sep [] = [] # []"
| "split_sep (c # cs) =
    (if c = CHR ''/'' then [] # split_sep cs
     else (case split_sep cs of [] \<Rightarrow> [c] # [] | w # ws \<Rightarrow> (c # w) # ws))"

text \<open>
  Modelled from the spec: \<open>resolve(tree, path)\<close>. A path is absolute; \<open>/\<close> is the root,
  and any other path is split on the separator after its leading \<open>/\<close> and walked from
  the root.
\<close>

definition resolve :: "file_tree \<Rightarrow> string \<Rightarrow> fs_error + nat" where
  "resolve t path =
    (if path = ''/'' then Inr (tree_root t)
     else (case path of
             [] \<Rightarrow> Inl NotFound
           | c # rest \<Rightarrow>
               if c \<noteq> CHR ''/'' then Inl NotFound
               else (case walk t (tree_root t) (split_sep rest) of
                       None \<Rightarrow> Inl NotFound
                     | Some i \<Rightarrow> Inr i)))"

text \<open>
  Modelled from the spec: the walk of \<open>computePath\<close> along the parent links up to the
  root. It yields the ids met, from the child of the root down to the node, and nothing
  for an id that is not in the tree or whose chain does not end at the root.
\<close>

partial_function (option) chain_up :: "file_tree \<Rightarrow> nat \<Rightarrow> nat list option" where
  "chain_up t i =
    (if i = tree_root t then Some []
     else (case tree_nodes t i of
             None \<Rightarrow> None
           | Some n \<Rightarrow>
               (case node_parent n of
                  None \<Rightarrow> None
                | Some p \<Rightarrow> Option.bind (chain_up t p) (\<lambda>ch. Some (ch @ [i])))))"

declare chain_up.simps [code]

text \<open>
  Modelled from the spec: joining names with the separator; the path of the root, which
  has no segment, is \<open>/\<close>.
\<close>

definition join_path :: "string list \<Rightarrow> string" where
  "join_path ns = (if ns = [] then ''/'' else concat (map (\<lambda>n. CHR ''/'' # n) ns))"

text \<open>Modelled from the spec: \<open>computePath(tree, nodeId)\<close>.\<close>

definition computePath :: "file_tree \<Rightarrow> nat \<Rightarrow> fs_error + string" where
  "computePath t i =
    (case tree_nodes t i of
       None \<Rightarrow> Inl NotFound
     | Some n \<Rightarrow>
         (case chain_up t i of
            None \<Rightarrow> Inl NotFound
          | Some ch \<Rightarrow> Inr (join_path (map (name_of t) ch))))"

text \<open>
  Modelled from the spec: \<open>createNode(parentPath, name, kind, content)\<close>. The new node
  gets the next id and is appended to its parent's children.
\<close>

definition createNode ::
  "file_tree \<Rightarrow> string \<Rightarrow> string \<Rightarrow> kind \<Rightarrow> string \<Rightarrow> fs_error + (file_tree \<times> nat)" where
  "createNode t parentPath name k c =
    (if \<not> valid_name name then Inl InvalidName
     else (case resolve t parentPath of
             Inl e \<Rightarrow> Inl ParentNotFound
           | Inr p \<Rightarrow>
               (case tree_nodes t p of
                  None \<Rightarrow> Inl ParentNotFound
                | Some pn \<Rightarrow>
                    if node_kind pn \<noteq> Folder then Inl ParentNotFound
                    else if lookup_child t (node_children pn) name \<noteq> None then Inl DuplicateName
                    else
                      Inr (t\<lparr>tree_nodes := (tree_nodes t)
                               (p \<mapsto> pn\<lparr>node_children := node_children pn @ [tree_next_id t]\<rparr>,
                                tree_next_id t \<mapsto>
                                  \<lparr>node_name = name, node_kind = k, node_parent = Some p,
                                   node_children = [], node_content = c\<rparr>),
                             tree_next_id := Suc (tree_next_id t)\<rparr>,
                           tree_next_id t))))"

text \<open>Modelled from the spec: \<open>writeContent(path, content)\<close>, valid on a File only.\<close>

definition writeContent :: "file_tree \<Rightarrow> string \<Rightarrow> string \<Rightarrow> fs_error + file_tree" where
  "writeContent t path c =
    (case resolve t path of
       Inl e \<Rightarrow> Inl NotFound
     | Inr i \<Rightarrow>
         (case tree_nodes t i of
            None \<Rightarrow> Inl NotFound
          | Some n \<Rightarrow>
              if node_kind n \<noteq> File then Inl WrongKind
              else Inr (t\<lparr>tree_nodes := (tree_nodes t)(i \<mapsto> n\<lparr>node_content := c\<rparr>)\<rparr>)))"

text \<open>
  Modelled from the spec: \<open>renameNode(path, newName)\<close>. The new name must be valid and
  must not be the name of another child of the node's parent.
\<close>

definition renameNode :: "file_tree \<Rightarrow> string \<Rightarrow> string \<Rightarrow> fs_error + file_tree" where
  "renameNode t path newName =
    (if \<not> valid_name newName then Inl InvalidName
     else (case resolve t path of
             Inl e \<Rightarrow> Inl NotFound
           | Inr i \<Rightarrow>
               (case tree_nodes t i of
                  None \<Rightarrow> Inl NotFound
                | Some n \<Rightarrow>
                    let siblings =
                      (case node_parent n of
                         None \<Rightarrow> []
                       | Some p \<Rightarrow>
                           (case tree_nodes t p of
                              None \<Rightarrow> []
                            | Some pn \<Rightarrow> filter (\<lambda>c. c \<noteq> i) (node_children pn)))
                    in if lookup_child t siblings newName \<noteq> None then Inl DuplicateName
                       else Inr (t\<lparr>tree_nodes := (tree_nodes t)(i \<mapsto> n\<lparr>node_name := newName\<rparr>)\<rparr>))))"

text \<open>
  Modelled from the spec: a node is the given node or one of its descendants when the
  given node lies on its chain of parents.
\<close>

definition under :: "file_tree \<Rightarrow> nat \<Rightarrow> nat \<Rightarrow> bool" where
  "under t i j = (case chain_up t j of None \<Rightarrow> False | Some ch \<Rightarrow> i \<in> set ch)"

text \<open>
  Modelled from the spec: \<open>deleteNode(path)\<close>. It removes the node and all its
  descendants in one transition and takes the node out of its parent's children; the
  root cannot be deleted.
\<close>

definition deleteNode :: "file_tree \<Rightarrow> string \<Rightarrow> fs_error + file_tree" where
  "deleteNode t path =
    (if path = ''/'' then Inl CannotDeleteRoot
     else (case resolve t path of
             Inl e \<Rightarrow> Inl NotFound
           | Inr i \<Rightarrow>
               if i = tree_root t then Inl CannotDeleteRoot
               else Inr (t\<lparr>tree_nodes := (\<lambda>j.
                     if under t i j then None
                     else map_option
                            (\<lambda>n. n\<lparr>node_children := filter (\<lambda>c. c \<noteq> i) (node_children n)\<rparr>)
                            (tree_nodes t j))\<rparr>)))"

text \<open>
  Modelled from the spec: the trees of the lifecycle, built from the empty root by the
  operations that succeed.
\<close>

inductive reachable_tree :: "file_tree \<Rightarrow> bool" where
  reachable_empty: "reachable_tree empty_tree"
| reachable_create:
    "reachable_tree t \<Longrightarrow> createNode t parentPath name k c = Inr (t', i) \<Longrightarrow> reachable_tree t'"
| reachable_write: "reachable_tree t \<Longrightarrow> writeContent t path c = Inr t' \<Longrightarrow> reachable_tree t'"
| reachable_rename: "reachable_tree t \<Longrightarrow> renameNode t path newName = Inr t' \<Longrightarrow> reachable_tree t'"
| reachable_delete: "reachable_tree t \<Longrightarrow> deleteNode t path = Inr t' \<Longrightarrow> reachable_tree t'"

text \<open>
  The invariants of the specification's data model on a snapshot: there is a root Folder
  with no parent; every node's id was handed out before \<open>tree_next_id\<close>; every other
  node has a valid name and a parent Folder, created before it, that lists it as a
  child; every listed child is in the tree and names the lister as its parent (no
  dangling reference); and no two siblings share a name.
\<close>

definition ok_root :: "file_tree \<Rightarrow> bool" where
  "ok_root t =
    (\<exists>r. tree_nodes t (tree_root t) = Some r \<and> node_parent r = None \<and> node_kind r = Folder)"

definition ok_bound :: "file_tree \<Rightarrow> bool" where
  "ok_bound t = (\<forall>i n. tree_nodes t i = Some n \<longrightarrow> i < tree_next_id t)"

definition ok_parent :: "file_tree \<Rightarrow> bool" where
  "ok_parent t =
    (\<forall>i n. tree_nodes t i = Some n \<and> i \<noteq> tree_root t \<longrightarrow>
       valid_name (node_name n) \<and>
       (\<exists>p pn. node_parent n = Some p \<and> p < i \<and> tree_nodes t p = Some pn \<and>
          node_kind pn = Folder \<and> i \<in> set (node_children pn)))"

definition ok_children :: "file_tree \<Rightarrow> bool" where
  "ok_children t =
    (\<forall>p pn c. tree_nodes t p = Some pn \<and> c \<in> set (node_children pn) \<longrightarrow>
       (\<exists>cn. tree_nodes t c = Some cn \<and> node_parent cn = Some p))"

definition ok_names :: "file_tree \<Rightarrow> bool" where
  "ok_names t =
    (\<forall>p pn. tree_nodes t p = Some pn \<longrightarrow> distinct (map (name_of t) (node_children pn)))"

definition tree_ok :: "file_tree \<Rightarrow> bool" where
  "tree_ok t = (ok_root t \<and> ok_bound t \<and> ok_parent t \<and> ok_children t \<and> ok_names t)"

text \<open>
  A seeded workspace: the folder \<open>/project\<close> created in the empty tree, then the file
  \<open>/project/script.js\<close> in it.
\<close>

definition example_folder :: file_tree where
  "example_folder =
    (case createNode empty_tree ''/'' ''project'' Folder [] of
       Inl e \<Rightarrow> empty_tree
     | Inr r \<Rightarrow> fst r)"

definition example_project :: file_tree where
  "example_project =
    (case createNode example_folder ''/project'' ''script.js'' File ''let a'' of
       Inl e \<Rightarrow> example_folder
     | Inr r \<Rightarrow> fst r)"

section \<open>Properties of the terminal\<close>

subsection \<open>One running command at a time\<close>

lemma mock_response_type: "mock_response d af t = Some (out, ty) \<Longrightarrow> ty \<noteq> type_running"
  by (auto simp: mock_response_def split: if_splits)

lemma mock_response_None: "(mock_response d af t = None) = (t = ''clear'')"
  by (auto simp: mock_response_def startsWith_def)

lemma running_entries_append [simp]:
  "running_entries (xs @ ys) = running_entries xs + running_entries ys"
  by (simp add: running_entries_def)

lemma running_entries_Nil [simp]: "running_entries [] = 0"
  by (simp add: running_entries_def)

lemma running_entries_single [simp]:
  "running_entries [e] = (if e_type e = type_running then 1 else 0)"
  by (simp add: running_entries_def)

lemma running_entries_butlast_le: "running_entries (butlast h) \<le> running_entries h"
proof (cases "h = []")
  case True
  then show ?thesis by simp
next
  case False
  then have "h = butlast h @ [last h]" by simp
  then have "running_entries h = running_entries (butlast h) + running_entries [last h]"
    by (metis running_entries_append)
  then show ?thesis by simp
qed

lemma running_entries_le_Suc_butlast: "running_entries h \<le> Suc (running_entries (butlast h))"
proof (cases "h = []")
  case True
  then show ?thesis by simp
next
  case False
  then have "h = butlast h @ [last h]" by simp
  then have "running_entries h = running_entries (butlast h) + running_entries [last h]"
    by (metis running_entries_append)
  then show ?thesis by simp
qed

lemma terminal_inv_init: "terminal_inv terminal_init"
  by (simp add: terminal_inv_def terminal_init_def mockTerminalHistory_def running_entries_def)

lemma terminal_inv_handleSubmit: "terminal_inv s \<Longrightarrow> terminal_inv (handleSubmit s)"
  by (auto simp: terminal_inv_def handleSubmit_def executeCommand_def Let_def
      split: option.splits if_splits)

lemma terminal_inv_handleKeyDown: "terminal_inv s \<Longrightarrow> terminal_inv (handleKeyDown k s)"
  by (cases k) (auto simp: terminal_inv_def handleKeyDown_def Let_def)

lemma terminal_inv_timeout:
  assumes "terminal_inv s" and "i < length (timers s)"
  shows "terminal_inv (executeCommand_timeout date (timers s ! i)
           (s\<lparr>timers := take i (timers s) @ drop (Suc i) (timers s)\<rparr>))"
proof -
  from assms have i0: "i = 0" and len: "length (timers s) = 1"
    by (auto simp: terminal_inv_def)
  then have rest: "take i (timers s) @ drop (Suc i) (timers s) = []" by simp
  from assms have bl: "running_entries (butlast (history s)) = 0"
    by (simp add: terminal_inv_def)
  show ?thesis
  proof (cases "mock_response date (snd (timers s ! i)) (fst (timers s ! i))")
    case None
    then show ?thesis
      by (simp add: executeCommand_timeout_def terminal_inv_def rest)
  next
    case (Some p)
    obtain out ty where p: "p = (out, ty)" by (cases p)
    with Some have ty: "ty \<noteq> type_running" using mock_response_type by blast
    have upd: "running_entries (update_last (\<lambda>e. e\<lparr>e_output := out, e_type := ty\<rparr>) (history s)) = 0"
      using bl ty by (simp add: update_last_def)
    have "running_entries (butlast (update_last (\<lambda>e. e\<lparr>e_output := out, e_type := ty\<rparr>) (history s))) = 0"
      using upd running_entries_butlast_le
      by (metis le_zero_eq)
    with upd Some p show ?thesis
      by (simp add: executeCommand_timeout_def terminal_inv_def rest)
  qed
qed

lemma terminal_inv_step:
  assumes "terminal_inv s"
  shows "terminal_inv (step ev s)"
proof (cases ev)
  case (Change v)
  with assms show ?thesis by (simp add: step_def terminal_inv_def)
next
  case Submit
  with assms show ?thesis by (simp add: step_def terminal_inv_handleSubmit)
next
  case (KeyDown k)
  with assms show ?thesis by (simp add: step_def terminal_inv_handleKeyDown)
next
  case ClearClick
  with assms show ?thesis by (simp add: step_def terminal_inv_def clearClick_def)
next
  case (SetActiveFile af)
  with assms show ?thesis by (simp add: step_def terminal_inv_def)
next
  case (Timeout date i)
  with assms show ?thesis using terminal_inv_timeout by (simp add: step_def)
qed

lemma reachable_inv: "reachable s \<Longrightarrow> terminal_inv s"
  by (induction rule: reachable.induct) (auto simp: terminal_inv_init terminal_inv_step)

lemma reachable_run: "reachable s \<Longrightarrow> reachable (run evs s)"
  by (induction evs arbitrary: s) (auto intro: reachable_step)

lemma trim_idem_nonempty: "trim c \<noteq> [] \<Longrightarrow> c \<noteq> []"
  by (auto simp: trim_def)



lemma timeout_idle:
  assumes "terminal_inv s" and "i < length (timers s)"
  shows "\<not> isRunning (step (Timeout date i) s) \<and>
         running_entries (history (step (Timeout date i) s)) = 0"
proof -
  have inv1: "terminal_inv (step (Timeout date i) s)"
    using assms(1) by (rule terminal_inv_step)
  have idle: "\<not> isRunning (step (Timeout date i) s)"
    using assms(2)
    by (simp add: step_def executeCommand_timeout_def split: option.splits prod.splits)
  with inv1 show ?thesis by (simp add: terminal_inv_def)
qed

lemma submit_when_idle:
  assumes "\<not> isRunning s" and "trim c \<noteq> []"
  shows "handleSubmit (s\<lparr>command := Some c\<rparr>) =
    s\<lparr>command := Some [], commandHistory := commandHistory s @ [trim c], historyIndex := - 1,
      history := history s @
        [\<lparr>e_command = trim c, e_output = [], e_type = type_running,
          e_working_directory = None, e_execution_time = None\<rparr>],
      isRunning := True, timers := timers s @ [(trim c, activeFile s)]\<rparr>"
  using assms by (simp add: handleSubmit_def executeCommand_def Let_def)

text \<open>
  Claim C1, as amended. In every state the first revision of the terminal can reach, at
  most one record of \<open>history\<close> is of type \<open>running\<close>. A submission made while a command
  runs is ignored and no failure is signalled: \<open>handleSubmit\<close> returns the state it was
  given, which is also all it does for a blank input, and in the second revision, which
  has an \<open>error\<close> state, \<open>handleSubmit\<close> likewise returns the state it was given, so
  \<open>error\<close> is not set. Once the pending callback has fired, the session is idle with no
  running record, and submitting a non-blank command is accepted again: it appends one
  running record.
\<close>

theorem at_most_one_running:
  assumes "reachable s"
  shows "running_entries (history s) \<le> 1 \<and>
         (if isRunning s then handleSubmit s = s else True) \<and>
         (\<forall>c. command s = Some c \<and> trim c = [] \<longrightarrow> handleSubmit s = s) \<and>
         (if isRunning a then api_handleSubmit a = a \<and> error (api_handleSubmit a) = error a
          else True) \<and>
         (\<forall>date i c. i < length (timers s) \<and> trim c \<noteq> [] \<longrightarrow>
            (let s1 = step (Timeout date i) s;
                 s2 = handleSubmit (s1\<lparr>command := Some c\<rparr>)
             in \<not> isRunning s1 \<and> running_entries (history s1) = 0 \<and> isRunning s2 \<and>
                history s2 = history s1 @
                  [\<lparr>e_command = trim c, e_output = [], e_type = type_running,
                    e_working_directory = None, e_execution_time = None\<rparr>] \<and>
                running_entries (history s2) = 1))"
proof (intro conjI allI impI)
  from assms have inv: "terminal_inv s" by (rule reachable_inv)
  show "running_entries (history s) \<le> 1"
    using inv running_entries_le_Suc_butlast [of "history s"] by (simp add: terminal_inv_def)
  show "if isRunning s then handleSubmit s = s else True"
    by (simp add: handleSubmit_def split: option.splits)
  show "handleSubmit s = s" if "command s = Some c \<and> trim c = []" for c
    using that by (simp add: handleSubmit_def)
  show "if isRunning a then api_handleSubmit a = a \<and> error (api_handleSubmit a) = error a
        else True"
    by (simp add: api_handleSubmit_def split: option.splits)
  fix date i c
  assume a: "i < length (timers s) \<and> trim c \<noteq> []"
  define s1 where "s1 = step (Timeout date i) s"
  have idle: "\<not> isRunning s1" and none: "running_entries (history s1) = 0"
    using timeout_idle [OF inv, of i date] a by (simp_all add: s1_def)
  have sub: "handleSubmit (s1\<lparr>command := Some c\<rparr>) =
    s1\<lparr>command := Some [], commandHistory := commandHistory s1 @ [trim c], historyIndex := - 1,
      history := history s1 @
        [\<lparr>e_command = trim c, e_output = [], e_type = type_running,
          e_working_directory = None, e_execution_time = None\<rparr>],
      isRunning := True, timers := timers s1 @ [(trim c, activeFile s1)]\<rparr>"
    using idle a by (intro submit_when_idle) simp_all
  have "\<not> isRunning s1 \<and> running_entries (history s1) = 0 \<and>
        isRunning (handleSubmit (s1\<lparr>command := Some c\<rparr>)) \<and>
        history (handleSubmit (s1\<lparr>command := Some c\<rparr>)) = history s1 @
          [\<lparr>e_command = trim c, e_output = [], e_type = type_running,
            e_working_directory = None, e_execution_time = None\<rparr>] \<and>
        running_entries (history (handleSubmit (s1\<lparr>command := Some c\<rparr>))) = 1"
    unfolding sub using idle none by simp
  then show "let s1 = step (Timeout date i) s;
                 s2 = handleSubmit (s1\<lparr>command := Some c\<rparr>)
             in \<not> isRunning s1 \<and> running_entries (history s1) = 0 \<and> isRunning s2 \<and>
                history s2 = history s1 @
                  [\<lparr>e_command = trim c, e_output = [], e_type = type_running,
                    e_working_directory = None, e_execution_time = None\<rparr>] \<and>
                running_entries (history s2) = 1"
    unfolding Let_def s1_def .
qed


text \<open>
  The states of the examples: \<open>ls\<close> is submitted and, while it runs, \<open>pwd\<close> is put into
  the input (the model lets the input change at any time; the rendered field is disabled
  while a command runs), in the first and in the second revision.
\<close>

lemma trim_ls [simp]: "trim ''ls'' = ''ls''" and trim_pwd [simp]: "trim ''pwd'' = ''pwd''"
  by (simp_all add: trim_def isSpace_def)

lemma busy_state:
  "run [Change ''ls'', Submit] terminal_init =
    terminal_init\<lparr>command := Some [], commandHistory := [''ls''], historyIndex := - 1,
      history := mockTerminalHistory @
        [\<lparr>e_command = ''ls'', e_output = [], e_type = type_running,
          e_working_directory = None, e_execution_time = None\<rparr>],
      isRunning := True, timers := [(''ls'', None)]\<rparr>"
  by (simp add: step_def handleSubmit_def executeCommand_def Let_def terminal_init_def)

lemma busy_typed_state:
  "run [Change ''ls'', Submit, Change ''pwd''] terminal_init =
    terminal_init\<lparr>command := Some ''pwd'', commandHistory := [''ls''], historyIndex := - 1,
      history := mockTerminalHistory @
        [\<lparr>e_command = ''ls'', e_output = [], e_type = type_running,
          e_working_directory = None, e_execution_time = None\<rparr>],
      isRunning := True, timers := [(''ls'', None)]\<rparr>"
  by (simp add: step_def handleSubmit_def executeCommand_def Let_def terminal_init_def)

lemma api_busy_typed_state:
  "api_run [ApiChange ''ls'', ApiSubmit, ApiChange ''pwd''] api_terminal_init =
    api_terminal_init\<lparr>command := Some ''pwd'', commandHistory := [''ls''], historyIndex := - 1,
      history :=
        [\<lparr>e_command = ''ls'', e_output = [], e_type = type_running,
          e_working_directory = Some ''/tmp/codeeditor'', e_execution_time = None\<rparr>],
      isRunning := True, requests := [(''ls'', ''/tmp/codeeditor'')]\<rparr>"
  by (simp add: api_step_def api_handleSubmit_def api_executeCommand_def Let_def
      api_terminal_init_def)

text \<open>
  The theorem at these states: the submission of \<open>pwd\<close> while \<open>ls\<close> runs is refused by
  the guard \<open>!isRunning\<close> alone, in both revisions; a blank input in the idle initial
  state is ignored in the same way; and after the callback of \<open>ls\<close> has fired \<open>pwd\<close> is
  accepted.
\<close>

theorem at_most_one_running_witness:
  "reachable (run [Change ''ls'', Submit, Change ''pwd''] terminal_init) \<and>
   isRunning (run [Change ''ls'', Submit, Change ''pwd''] terminal_init) \<and>
   command (run [Change ''ls'', Submit, Change ''pwd''] terminal_init) = Some ''pwd'' \<and>
   trim ''pwd'' \<noteq> [] \<and>
   handleSubmit (run [Change ''ls'', Submit, Change ''pwd''] terminal_init) =
     run [Change ''ls'', Submit, Change ''pwd''] terminal_init \<and>
   running_entries (history (run [Change ''ls'', Submit, Change ''pwd''] terminal_init)) \<le> 1 \<and>
   reachable terminal_init \<and> command terminal_init = Some [] \<and> trim [] = [] \<and>
   handleSubmit terminal_init = terminal_init \<and>
   isRunning (api_run [ApiChange ''ls'', ApiSubmit, ApiChange ''pwd''] api_terminal_init) \<and>
   api_handleSubmit (api_run [ApiChange ''ls'', ApiSubmit, ApiChange ''pwd''] api_terminal_init) =
     api_run [ApiChange ''ls'', ApiSubmit, ApiChange ''pwd''] api_terminal_init \<and>
   (let s1 = step (Timeout [] 0) (run [Change ''ls'', Submit, Change ''pwd''] terminal_init);
        s2 = handleSubmit (s1\<lparr>command := Some ''pwd''\<rparr>)
    in \<not> isRunning s1 \<and> isRunning s2 \<and> running_entries (history s2) = 1)"
proof -
  let ?s = "run [Change ''ls'', Submit, Change ''pwd''] terminal_init"
  let ?a = "api_run [ApiChange ''ls'', ApiSubmit, ApiChange ''pwd''] api_terminal_init"
  have r: "reachable ?s" by (rule reachable_run [OF reachable_init])
  have running: "isRunning ?s" and tm: "0 < length (timers ?s)"
    and typed: "command ?s = Some ''pwd''"
    unfolding busy_typed_state by simp_all
  have arunning: "isRunning ?a"
    unfolding api_busy_typed_state by simp
  have t: "trim ''pwd'' \<noteq> []" by simp
  have blank: "command terminal_init = Some [] \<and> trim [] = []"
    by (simp add: terminal_init_def trim_def)
  note main = at_most_one_running [OF r, of ?a]
  from main running have busy: "handleSubmit ?s = ?s" by presburger
  from main have one: "running_entries (history ?s) \<le> 1" by blast
  from main arunning have abusy: "api_handleSubmit ?a = ?a" by presburger
  from at_most_one_running [OF reachable_init, of ?a] blank
  have ignored: "handleSubmit terminal_init = terminal_init" by blast
  from main have "\<forall>date i c. i < length (timers ?s) \<and> trim c \<noteq> [] \<longrightarrow>
            (let s1 = step (Timeout date i) ?s;
                 s2 = handleSubmit (s1\<lparr>command := Some c\<rparr>)
             in \<not> isRunning s1 \<and> running_entries (history s1) = 0 \<and> isRunning s2 \<and>
                history s2 = history s1 @
                  [\<lparr>e_command = trim c, e_output = [], e_type = type_running,
                    e_working_directory = None, e_execution_time = None\<rparr>] \<and>
                running_entries (history s2) = 1)" by blast
  then have "let s1 = step (Timeout [] 0) ?s;
                 s2 = handleSubmit (s1\<lparr>command := Some ''pwd''\<rparr>)
             in \<not> isRunning s1 \<and> running_entries (history s1) = 0 \<and> isRunning s2 \<and>
                history s2 = history s1 @
                  [\<lparr>e_command = trim ''pwd'', e_output = [], e_type = type_running,
                    e_working_directory = None, e_execution_time = None\<rparr>] \<and>
                running_entries (history s2) = 1"
    using tm by (metis trim_pwd list.distinct(1))
  then have again: "let s1 = step (Timeout [] 0) ?s;
        s2 = handleSubmit (s1\<lparr>command := Some ''pwd''\<rparr>)
    in \<not> isRunning s1 \<and> isRunning s2 \<and> running_entries (history s2) = 1"
    unfolding Let_def by blast
  from blank have b1: "command terminal_init = Some []" and b2: "trim [] = []" by simp_all
  from r running typed t busy one reachable_init b1 b2 ignored arunning abusy again
  show ?thesis by (intro conjI)
qed

text \<open>
  Claim C1 as stated fails: the submission of \<open>pwd\<close> while \<open>ls\<close> runs does not fail with
  an error. The handler returns the state it was given, as it does for the blank input
  of the initial state, and in the second revision the \<open>error\<close> state, where that revision
  reports a failed command, is still empty after it.
\<close>

theorem busy_submit_signals_nothing:
  "isRunning (run [Change ''ls'', Submit, Change ''pwd''] terminal_init) \<and>
   command (run [Change ''ls'', Submit, Change ''pwd''] terminal_init) = Some ''pwd'' \<and>
   trim ''pwd'' \<noteq> [] \<and>
   handleSubmit (run [Change ''ls'', Submit, Change ''pwd''] terminal_init) =
     run [Change ''ls'', Submit, Change ''pwd''] terminal_init \<and>
   handleSubmit terminal_init = terminal_init \<and>
   isRunning (api_run [ApiChange ''ls'', ApiSubmit, ApiChange ''pwd''] api_terminal_init) \<and>
   command (api_run [ApiChange ''ls'', ApiSubmit, ApiChange ''pwd''] api_terminal_init) =
     Some ''pwd'' \<and>
   api_handleSubmit (api_run [ApiChange ''ls'', ApiSubmit, ApiChange ''pwd''] api_terminal_init) =
     api_run [ApiChange ''ls'', ApiSubmit, ApiChange ''pwd''] api_terminal_init \<and>
   error (api_handleSubmit
     (api_run [ApiChange ''ls'', ApiSubmit, ApiChange ''pwd''] api_terminal_init)) = None"
  unfolding busy_typed_state api_busy_typed_state
  by (simp add: handleSubmit_def api_handleSubmit_def terminal_init_def api_terminal_init_def
      trim_def isSpace_def)

subsection \<open>No bound on the history\<close>

lemma submit_and_complete_history:
  assumes "\<not> isRunning s" and "timers s = []" and "trim c \<noteq> []" and "trim c \<noteq> ''clear''"
  shows "submit_and_complete date c s =
    s\<lparr>command := Some [], commandHistory := commandHistory s @ [trim c], historyIndex := - 1,
      history := history s @ [finished_entry date (activeFile s) c],
      isRunning := False, timers := []\<rparr>"
proof -
  obtain out ty where m: "mock_response date (activeFile s) (trim c) = Some (out, ty)"
    using assms(4) mock_response_None [of date "activeFile s" "trim c"] by (cases "mock_response date (activeFile s) (trim c)") auto
  have "step Submit (step (Change c) s) =
    s\<lparr>command := Some [], commandHistory := commandHistory s @ [trim c], historyIndex := - 1,
      history := history s @
        [\<lparr>e_command = trim c, e_output = [], e_type = type_running,
          e_working_directory = None, e_execution_time = None\<rparr>],
      isRunning := True, timers := timers s @ [(trim c, activeFile s)]\<rparr>"
    using submit_when_idle [OF assms(1) assms(3)] by (simp add: step_def)
  then show ?thesis
    using assms(2) m
    by (simp add: submit_and_complete_def step_def executeCommand_timeout_def update_last_def
        finished_entry_def)
qed

lemma run_commands_history:
  assumes "\<not> isRunning s" and "timers s = []"
    and "\<forall>c \<in> set cs. trim c \<noteq> [] \<and> trim c \<noteq> ''clear''"
  shows "history (run_commands date cs s) = history s @ map (finished_entry date (activeFile s)) cs
    \<and> \<not> isRunning (run_commands date cs s) \<and> timers (run_commands date cs s) = []
    \<and> activeFile (run_commands date cs s) = activeFile s"
  using assms
proof (induction cs arbitrary: s)
  case Nil
  then show ?case by simp
next
  case (Cons c cs)
  let ?s' = "submit_and_complete date c s"
  have eq: "?s' = s\<lparr>command := Some [], commandHistory := commandHistory s @ [trim c], historyIndex := - 1,
      history := history s @ [finished_entry date (activeFile s) c],
      isRunning := False, timers := []\<rparr>"
    using Cons.prems by (intro submit_and_complete_history) simp_all
  have "history (run_commands date cs ?s') = history ?s' @ map (finished_entry date (activeFile ?s')) cs
    \<and> \<not> isRunning (run_commands date cs ?s') \<and> timers (run_commands date cs ?s') = []
    \<and> activeFile (run_commands date cs ?s') = activeFile ?s'"
    using Cons.prems by (intro Cons.IH) (simp_all add: eq)
  then show ?case by (simp add: eq)
qed


text \<open>
  Claim C4, as amended. The code has no cap and evicts nothing: submitting and completing
  any commands (none blank, none the mock \<open>clear\<close>) from an idle session appends one
  finished record per command to \<open>history\<close>, in order, after the records it held, so its
  length grows by the number of commands and the records it held stay where they were,
  the oldest first.
\<close>

theorem history_keeps_every_record:
  assumes "\<not> isRunning s" and "timers s = []"
    and "\<forall>c \<in> set cs. trim c \<noteq> [] \<and> trim c \<noteq> ''clear''"
  shows "history (run_commands date cs s) = history s @ map (finished_entry date (activeFile s)) cs \<and>
         length (history (run_commands date cs s)) = length (history s) + length cs \<and>
         take (length (history s)) (history (run_commands date cs s)) = history s"
  using run_commands_history [OF assms, of date] by simp

theorem history_keeps_every_record_witness:
  "\<not> isRunning terminal_init \<and> timers terminal_init = [] \<and>
   trim ''pwd'' \<noteq> [] \<and> trim ''pwd'' \<noteq> ''clear'' \<and> trim ''ls'' \<noteq> [] \<and> trim ''ls'' \<noteq> ''clear'' \<and>
   history (run_commands [] [''pwd'', ''ls''] terminal_init) =
     mockTerminalHistory @ [finished_entry [] None ''pwd'', finished_entry [] None ''ls''] \<and>
   length (history (run_commands [] [''pwd'', ''ls''] terminal_init)) = 6 \<and>
   take 4 (history (run_commands [] [''pwd'', ''ls''] terminal_init)) = mockTerminalHistory"
proof -
  have a: "\<not> isRunning terminal_init" and b: "timers terminal_init = []"
    by (simp_all add: terminal_init_def)
  have c: "\<forall>c \<in> set [''pwd'', ''ls'']. trim c \<noteq> [] \<and> trim c \<noteq> ''clear''"
    by simp
  have d: "history terminal_init = mockTerminalHistory" "activeFile terminal_init = None"
    by (simp_all add: terminal_init_def)
  have e: "length mockTerminalHistory = 4" by (simp add: mockTerminalHistory_def)
  show ?thesis
    using history_keeps_every_record [OF a b c, of "[]"] a b d e by simp
qed

text \<open>
  Claim C4 as stated fails. With the cap of 50 the specification gives as its example, 51
  commands submitted and completed on a cleared terminal leave 51 records, and the
  oldest, \<open>pwd\<close>, is still the first.
\<close>

theorem history_cap_counterexample:
  "length (history (run_commands [] (''pwd'' # replicate 50 ''ls'') (clearClick terminal_init))) = 51 \<and>
   e_command (hd (history (run_commands [] (''pwd'' # replicate 50 ''ls'') (clearClick terminal_init)))) = ''pwd''"
proof -
  have a: "\<not> isRunning (clearClick terminal_init)" and b: "timers (clearClick terminal_init) = []"
    and h: "history (clearClick terminal_init) = []"
    by (simp_all add: terminal_init_def clearClick_def)
  have c: "\<forall>c \<in> set (''pwd'' # replicate 50 ''ls''). trim c \<noteq> [] \<and> trim c \<noteq> ''clear''"
    by auto
  have "history (run_commands [] (''pwd'' # replicate 50 ''ls'') (clearClick terminal_init)) =
      map (finished_entry [] (activeFile (clearClick terminal_init))) (''pwd'' # replicate 50 ''ls'')"
    using run_commands_history [OF a b c, of "[]"] h by simp
  then show ?thesis by (simp add: finished_entry_def split: option.splits)
qed

subsection \<open>Recalling submitted commands\<close>

lemma handleKeyDown_up_first:
  assumes "commandHistory s \<noteq> []" and "historyIndex s = - 1"
  shows "handleKeyDown ArrowUp s =
    s\<lparr>historyIndex := int (length (commandHistory s)) - 1,
      command := Some (last (commandHistory s))\<rparr>"
proof -
  have "nat (int (length (commandHistory s)) - 1) = length (commandHistory s) - 1"
    by simp
  then show ?thesis
    using assms by (simp add: handleKeyDown_def Let_def js_index_def last_conv_nth)
qed

lemma handleKeyDown_up_iter:
  assumes "commandHistory s \<noteq> []" and "historyIndex s = - 1"
  shows "(handleKeyDown ArrowUp ^^ Suc k) s =
    s\<lparr>historyIndex := max 0 (int (length (commandHistory s)) - 1 - int k),
      command := js_index (commandHistory s) (max 0 (int (length (commandHistory s)) - 1 - int k))\<rparr>"
proof (induction k)
  case 0
  from assms show ?case by (simp add: handleKeyDown_def Let_def)
next
  case (Suc k)
  have "(handleKeyDown ArrowUp ^^ Suc (Suc k)) s = handleKeyDown ArrowUp ((handleKeyDown ArrowUp ^^ Suc k) s)"
    by simp
  also have "\<dots> = handleKeyDown ArrowUp (s\<lparr>historyIndex := max 0 (int (length (commandHistory s)) - 1 - int k),
      command := js_index (commandHistory s) (max 0 (int (length (commandHistory s)) - 1 - int k))\<rparr>)"
    by (simp only: Suc.IH)
  also have "\<dots> = s\<lparr>historyIndex := max 0 (int (length (commandHistory s)) - 1 - int (Suc k)),
      command := js_index (commandHistory s) (max 0 (int (length (commandHistory s)) - 1 - int (Suc k)))\<rparr>"
    using assms(1) by (simp add: handleKeyDown_def Let_def max_def)
  finally show ?case .
qed

lemma handleKeyDown_down_none:
  "historyIndex s = - 1 \<Longrightarrow> (handleKeyDown ArrowDown ^^ j) s = s"
  by (induction j) (simp_all add: handleKeyDown_def)

lemma handleKeyDown_down_iter:
  assumes "0 \<le> i" and "i < int (length (commandHistory s))" and "int (length (commandHistory s)) - i \<le> int j"
  shows "(handleKeyDown ArrowDown ^^ j) (s\<lparr>historyIndex := i, command := c\<rparr>) =
    s\<lparr>historyIndex := - 1, command := Some []\<rparr>"
  using assms
proof (induction j arbitrary: i c)
  case 0
  then show ?case by simp
next
  case (Suc j)
  have unf: "(handleKeyDown ArrowDown ^^ Suc j) (s\<lparr>historyIndex := i, command := c\<rparr>) =
    (handleKeyDown ArrowDown ^^ j) (handleKeyDown ArrowDown (s\<lparr>historyIndex := i, command := c\<rparr>))"
    by (simp add: funpow_swap1)
  show ?case
  proof (cases "i + 1 \<ge> int (length (commandHistory s))")
    case True
    with Suc.prems have "handleKeyDown ArrowDown (s\<lparr>historyIndex := i, command := c\<rparr>) =
      s\<lparr>historyIndex := - 1, command := Some []\<rparr>"
      by (simp add: handleKeyDown_def Let_def)
    then show ?thesis
      unfolding unf by (simp add: handleKeyDown_down_none)
  next
    case False
    with Suc.prems have "handleKeyDown ArrowDown (s\<lparr>historyIndex := i, command := c\<rparr>) =
      s\<lparr>historyIndex := i + 1, command := js_index (commandHistory s) (i + 1)\<rparr>"
      by (simp add: handleKeyDown_def Let_def)
    moreover have "(handleKeyDown ArrowDown ^^ j)
        (s\<lparr>historyIndex := i + 1, command := js_index (commandHistory s) (i + 1)\<rparr>) =
      s\<lparr>historyIndex := - 1, command := Some []\<rparr>"
      using Suc.prems False by (intro Suc.IH) simp_all
    ultimately show ?thesis unfolding unf by simp
  qed
qed

lemma recall_clears_draft:
  assumes "commandHistory s \<noteq> []" and "historyIndex s = - 1"
  shows "(handleKeyDown ArrowDown ^^ Suc k) ((handleKeyDown ArrowUp ^^ Suc k) s) =
    s\<lparr>historyIndex := - 1, command := Some []\<rparr>"
proof -
  let ?n = "int (length (commandHistory s))"
  let ?i = "max 0 (?n - 1 - int k)"
  have up: "(handleKeyDown ArrowUp ^^ Suc k) s =
      s\<lparr>historyIndex := ?i, command := js_index (commandHistory s) ?i\<rparr>"
    using assms by (rule handleKeyDown_up_iter)
  have "0 \<le> ?i" by simp
  moreover have "?i < ?n" using assms(1) by (simp add: max_def)
  moreover have "?n - ?i \<le> int (Suc k)" by (simp add: max_def)
  ultimately have "(handleKeyDown ArrowDown ^^ Suc k)
      (s\<lparr>historyIndex := ?i, command := js_index (commandHistory s) ?i\<rparr>) =
    s\<lparr>historyIndex := - 1, command := Some []\<rparr>"
    by (rule handleKeyDown_down_iter)
  then show ?thesis unfolding up .
qed

lemma recall_round_trip_aux:
  assumes "historyIndex s = - 1" and "command s = Some []"
  shows "(handleKeyDown ArrowDown ^^ k) ((handleKeyDown ArrowUp ^^ k) s) = s"
proof (cases "commandHistory s = [] \<or> k = 0")
  case True
  then show ?thesis
  proof
    assume e: "commandHistory s = []"
    have "(handleKeyDown ArrowUp ^^ j) s = s" for j
      by (induction j) (simp_all add: handleKeyDown_def e)
    then show ?thesis using assms(1) by (simp add: handleKeyDown_down_none)
  next
    assume "k = 0"
    then show ?thesis by simp
  qed
next
  case False
  then obtain k' where k: "k = Suc k'" and ne: "commandHistory s \<noteq> []"
    by (cases k) auto
  have "(handleKeyDown ArrowDown ^^ k) ((handleKeyDown ArrowUp ^^ k) s) =
      s\<lparr>historyIndex := - 1, command := Some []\<rparr>"
    unfolding k using ne assms(1) by (rule recall_clears_draft)
  also have "\<dots> = s" using assms by simp
  finally show ?thesis .
qed


text \<open>
  Claim C5. From the empty draft (no cursor, empty input), \<open>k\<close> presses of ArrowUp
  followed by \<open>k\<close> presses of ArrowDown give back the same state, for every log of
  submitted commands and every \<open>k\<close>; and from no cursor with any text in the input,
  they end with no cursor and an empty input whenever the log is not empty and \<open>k\<close> is
  positive. ArrowUp is clamped at the oldest entry: from no
  cursor, as many presses as the log is long, or more, stop at index 0 with the oldest
  command in the input, and one more press at index 0 stays there. ArrowDown at the
  newest entry clears the cursor and empties the input.
\<close>

theorem recall_round_trip:
  "(historyIndex s = - 1 \<and> command s = Some [] \<longrightarrow>
      (handleKeyDown ArrowDown ^^ k) ((handleKeyDown ArrowUp ^^ k) s) = s) \<and>
   (commandHistory s \<noteq> [] \<and> historyIndex s = - 1 \<and> 0 < k \<longrightarrow>
      (handleKeyDown ArrowDown ^^ k) ((handleKeyDown ArrowUp ^^ k) s) =
        s\<lparr>historyIndex := - 1, command := Some []\<rparr>) \<and>
   (commandHistory s \<noteq> [] \<and> historyIndex s = - 1 \<and> length (commandHistory s) \<le> k \<longrightarrow>
      historyIndex ((handleKeyDown ArrowUp ^^ k) s) = 0 \<and>
      command ((handleKeyDown ArrowUp ^^ k) s) = Some (hd (commandHistory s))) \<and>
   (commandHistory s \<noteq> [] \<and> historyIndex s = 0 \<longrightarrow>
      handleKeyDown ArrowUp s = s\<lparr>command := Some (hd (commandHistory s))\<rparr>) \<and>
   (historyIndex s \<noteq> - 1 \<and> int (length (commandHistory s)) \<le> historyIndex s + 1 \<longrightarrow>
      handleKeyDown ArrowDown s = s\<lparr>historyIndex := - 1, command := Some []\<rparr>)"
proof (intro conjI impI)
  assume "historyIndex s = - 1 \<and> command s = Some []"
  then show "(handleKeyDown ArrowDown ^^ k) ((handleKeyDown ArrowUp ^^ k) s) = s"
    by (simp add: recall_round_trip_aux)
next
  assume a: "commandHistory s \<noteq> [] \<and> historyIndex s = - 1 \<and> 0 < k"
  then obtain k' where k: "k = Suc k'" by (cases k) auto
  from a have "commandHistory s \<noteq> []" and "historyIndex s = - 1" by simp_all
  then show "(handleKeyDown ArrowDown ^^ k) ((handleKeyDown ArrowUp ^^ k) s) =
      s\<lparr>historyIndex := - 1, command := Some []\<rparr>"
    unfolding k by (rule recall_clears_draft)
next
  assume a: "commandHistory s \<noteq> [] \<and> historyIndex s = - 1 \<and> length (commandHistory s) \<le> k"
  then obtain k' where k: "k = Suc k'" by (cases k) auto
  from a k have m: "max 0 (int (length (commandHistory s)) - 1 - int k') = 0"
    by (simp add: max_def)
  have "(handleKeyDown ArrowUp ^^ k) s =
      s\<lparr>historyIndex := 0, command := js_index (commandHistory s) 0\<rparr>"
    using handleKeyDown_up_iter [of s k'] a m unfolding k by simp
  moreover have "js_index (commandHistory s) 0 = Some (hd (commandHistory s))"
    using a by (simp add: js_index_def hd_conv_nth)
  ultimately show "historyIndex ((handleKeyDown ArrowUp ^^ k) s) = 0"
    and "command ((handleKeyDown ArrowUp ^^ k) s) = Some (hd (commandHistory s))"
    by simp_all
next
  assume "commandHistory s \<noteq> [] \<and> historyIndex s = 0"
  then show "handleKeyDown ArrowUp s = s\<lparr>command := Some (hd (commandHistory s))\<rparr>"
    by (simp add: handleKeyDown_def Let_def js_index_def hd_conv_nth)
next
  assume "historyIndex s \<noteq> - 1 \<and> int (length (commandHistory s)) \<le> historyIndex s + 1"
  then show "handleKeyDown ArrowDown s = s\<lparr>historyIndex := - 1, command := Some []\<rparr>"
    by (simp add: handleKeyDown_def Let_def)
qed

text \<open>The theorem after two submitted commands, and at cursors 0 and 1 of that log.\<close>

lemma two_commands_state:
  "run_commands [] [''ls'', ''pwd''] terminal_init =
    terminal_init\<lparr>commandHistory := [''ls'', ''pwd''],
      history := mockTerminalHistory @ [finished_entry [] None ''ls'', finished_entry [] None ''pwd'']\<rparr>"
proof -
  have a: "\<not> isRunning terminal_init" and b: "timers terminal_init = []"
    by (simp_all add: terminal_init_def)
  have "submit_and_complete [] ''ls'' terminal_init =
    terminal_init\<lparr>commandHistory := [''ls''],
      history := mockTerminalHistory @ [finished_entry [] None ''ls'']\<rparr>"
    using submit_and_complete_history [OF a b, of "''ls''" "[]"]
    by (simp add: terminal_init_def)
  moreover have "submit_and_complete [] ''pwd'' (terminal_init\<lparr>commandHistory := [''ls''],
      history := mockTerminalHistory @ [finished_entry [] None ''ls'']\<rparr>) =
    terminal_init\<lparr>commandHistory := [''ls'', ''pwd''],
      history := mockTerminalHistory @ [finished_entry [] None ''ls'', finished_entry [] None ''pwd'']\<rparr>"
    using submit_and_complete_history [of "terminal_init\<lparr>commandHistory := [''ls''],
      history := mockTerminalHistory @ [finished_entry [] None ''ls'']\<rparr>" "''pwd''" "[]"]
    by (simp add: terminal_init_def)
  ultimately show ?thesis by simp
qed

theorem recall_round_trip_witness:
  "historyIndex (run_commands [] [''ls'', ''pwd''] terminal_init) = - 1 \<and>
   command (run_commands [] [''ls'', ''pwd''] terminal_init) = Some [] \<and>
   commandHistory (run_commands [] [''ls'', ''pwd''] terminal_init) = [''ls'', ''pwd''] \<and>
   (handleKeyDown ArrowDown ^^ 3)
     ((handleKeyDown ArrowUp ^^ 3) (run_commands [] [''ls'', ''pwd''] terminal_init)) =
     run_commands [] [''ls'', ''pwd''] terminal_init \<and>
   (handleKeyDown ArrowDown ^^ 3)
     ((handleKeyDown ArrowUp ^^ 3) (terminal_init\<lparr>commandHistory := [''ls''], command := Some ''pw''\<rparr>)) =
     terminal_init\<lparr>commandHistory := [''ls''], command := Some []\<rparr> \<and>
   historyIndex ((handleKeyDown ArrowUp ^^ 3) (run_commands [] [''ls'', ''pwd''] terminal_init)) = 0 \<and>
   command ((handleKeyDown ArrowUp ^^ 3) (run_commands [] [''ls'', ''pwd''] terminal_init)) =
     Some ''ls'' \<and>
   handleKeyDown ArrowUp (terminal_init\<lparr>commandHistory := [''ls'', ''pwd''], historyIndex := 0\<rparr>) =
     terminal_init\<lparr>commandHistory := [''ls'', ''pwd''], historyIndex := 0, command := Some ''ls''\<rparr> \<and>
   handleKeyDown ArrowDown (terminal_init\<lparr>commandHistory := [''ls'', ''pwd''], historyIndex := 1\<rparr>) =
     terminal_init\<lparr>commandHistory := [''ls'', ''pwd''], historyIndex := - 1, command := Some []\<rparr>"
proof -
  let ?s = "run_commands [] [''ls'', ''pwd''] terminal_init"
  have s: "historyIndex ?s = - 1" "command ?s = Some []" "commandHistory ?s = [''ls'', ''pwd'']"
    unfolding two_commands_state by (simp_all add: terminal_init_def)
  have len: "commandHistory ?s \<noteq> [] \<and> historyIndex ?s = - 1 \<and> length (commandHistory ?s) \<le> 3"
    using s by simp
  from recall_round_trip [of ?s 3] s
  have rt: "(handleKeyDown ArrowDown ^^ 3) ((handleKeyDown ArrowUp ^^ 3) ?s) = ?s"
    by blast
  from recall_round_trip [of ?s 3] len
  have cl: "historyIndex ((handleKeyDown ArrowUp ^^ 3) ?s) = 0 \<and>
      command ((handleKeyDown ArrowUp ^^ 3) ?s) = Some (hd (commandHistory ?s))"
    by blast
  have up: "handleKeyDown ArrowUp (terminal_init\<lparr>commandHistory := [''ls'', ''pwd''], historyIndex := 0\<rparr>) =
     terminal_init\<lparr>commandHistory := [''ls'', ''pwd''], historyIndex := 0, command := Some ''ls''\<rparr>"
    using recall_round_trip [of "terminal_init\<lparr>commandHistory := [''ls'', ''pwd''], historyIndex := 0\<rparr>" 0]
    by simp
  have down: "handleKeyDown ArrowDown (terminal_init\<lparr>commandHistory := [''ls'', ''pwd''], historyIndex := 1\<rparr>) =
     terminal_init\<lparr>commandHistory := [''ls'', ''pwd''], historyIndex := - 1, command := Some []\<rparr>"
    using recall_round_trip [of "terminal_init\<lparr>commandHistory := [''ls'', ''pwd''], historyIndex := 1\<rparr>" 0]
    by simp
  have typed: "(handleKeyDown ArrowDown ^^ 3)
     ((handleKeyDown ArrowUp ^^ 3) (terminal_init\<lparr>commandHistory := [''ls''], command := Some ''pw''\<rparr>)) =
     terminal_init\<lparr>commandHistory := [''ls''], command := Some []\<rparr>"
    using recall_round_trip [of "terminal_init\<lparr>commandHistory := [''ls''], command := Some ''pw''\<rparr>" 3]
    by (simp add: terminal_init_def)
  from s rt cl up down typed show ?thesis by simp
qed

subsection \<open>Clearing the terminal\<close>

text \<open>
  Claim C6, as amended. \<open>clearTerminal\<close> (second revision) empties \<open>history\<close> and leaves
  \<open>workingDirectory\<close>, the recall cursor \<open>historyIndex\<close>, the log \<open>commandHistory\<close>, the
  input and \<open>isRunning\<close> as they were; the Clear button of the first revision likewise
  empties \<open>history\<close> and keeps the cursor and the log.
\<close>

theorem clear_frame:
  "history (clearTerminal s) = [] \<and>
   workingDirectory (clearTerminal s) = workingDirectory s \<and>
   historyIndex (clearTerminal s) = historyIndex s \<and>
   commandHistory (clearTerminal s) = commandHistory s \<and>
   command (clearTerminal s) = command s \<and>
   isRunning (clearTerminal s) = isRunning s \<and>
   history (clearClick t) = [] \<and>
   historyIndex (clearClick t) = historyIndex t \<and>
   commandHistory (clearClick t) = commandHistory t"
  by (simp add: clearTerminal_def clearClick_def)

text \<open>
  Claim C6 as stated fails: after running \<open>ls\<close> and pressing ArrowUp the cursor is 0, and
  clicking Clear empties \<open>history\<close> but leaves the cursor at 0.
\<close>

theorem clear_keeps_cursor_counterexample:
  "api_reachable (api_run [ApiChange ''ls'', ApiSubmit,
      ApiResolved 0 \<lparr>r_command = ''ls'', r_output = ''a.js'', r_exit_code = 0,
        r_working_directory = ''/tmp/codeeditor'', r_execution_time = None\<rparr>,
      ApiKeyDown ArrowUp] api_terminal_init) \<and>
   historyIndex (api_step ApiClearClick (api_run [ApiChange ''ls'', ApiSubmit,
      ApiResolved 0 \<lparr>r_command = ''ls'', r_output = ''a.js'', r_exit_code = 0,
        r_working_directory = ''/tmp/codeeditor'', r_execution_time = None\<rparr>,
      ApiKeyDown ArrowUp] api_terminal_init)) = 0 \<and>
   history (api_step ApiClearClick (api_run [ApiChange ''ls'', ApiSubmit,
      ApiResolved 0 \<lparr>r_command = ''ls'', r_output = ''a.js'', r_exit_code = 0,
        r_working_directory = ''/tmp/codeeditor'', r_execution_time = None\<rparr>,
      ApiKeyDown ArrowUp] api_terminal_init)) = []"
proof -
  have "api_reachable (api_run evs s)" if "api_reachable s" for evs s
    using that by (induction evs arbitrary: s) (auto intro: api_reachable_step)
  then have r: "api_reachable (api_run [ApiChange ''ls'', ApiSubmit,
      ApiResolved 0 \<lparr>r_command = ''ls'', r_output = ''a.js'', r_exit_code = 0,
        r_working_directory = ''/tmp/codeeditor'', r_execution_time = None\<rparr>,
      ApiKeyDown ArrowUp] api_terminal_init)"
    using api_reachable_init by blast
  have e: "api_run [ApiChange ''ls'', ApiSubmit,
      ApiResolved 0 \<lparr>r_command = ''ls'', r_output = ''a.js'', r_exit_code = 0,
        r_working_directory = ''/tmp/codeeditor'', r_execution_time = None\<rparr>,
      ApiKeyDown ArrowUp] api_terminal_init =
    api_terminal_init\<lparr>command := Some ''ls'', commandHistory := [''ls''], historyIndex := 0,
      history := [\<lparr>e_command = ''ls'', e_output = ''a.js'', e_type = type_success,
        e_working_directory = Some ''/tmp/codeeditor'', e_execution_time = None\<rparr>]\<rparr>"
    by (simp add: api_step_def api_handleSubmit_def api_executeCommand_def Let_def
        api_executeCommand_resolved_def update_last_def exit_type_def handleKeyDown_def
        js_index_def api_terminal_init_def)
  show ?thesis
    using r unfolding e by (simp add: api_step_def clearTerminal_def api_terminal_init_def)
qed

section \<open>Properties of the file explorer\<close>

lemma createFile_updateTree_map:
  "createFile_updateTree parentId nf items = map (createFile_item parentId nf) items"
  by (induction items) simp_all

lemma renameItem_updateTree_map:
  "renameItem_updateTree itemId newName items = map (renameItem_item itemId newName) items"
  by (induction items) simp_all

lemma findFileById_id: "findFileById items fileId = Some f \<Longrightarrow> item_id f = fileId"
  by (induction items fileId rule: findFileById.induct) (auto split: if_splits option.splits)

lemma findFileById_rename:
  "findFileById (renameItem_updateTree itemId newName items) itemId =
    map_option (renameItem_item itemId newName) (findFileById items itemId)"
proof (induction items itemId rule: findFileById.induct)
  case (1 fileId)
  then show ?case by simp
next
  case (2 i n t l c ch items fileId)
  show ?case
  proof (cases "i = fileId")
    case True
    then show ?thesis by simp
  next
    case False
    show ?thesis
    proof (cases ch)
      case None
      with False 2 show ?thesis by simp
    next
      case (Some cs)
      with False 2 show ?thesis by (simp split: option.splits)
    qed
  qed
qed

lemma language_examples:
  "language_of_name ''a.js'' = Lang ''javascript''"
  "language_of_name ''a.py'' = Lang ''python''"
  "language_of_name ''a.unknownext'' = Lang ''plaintext''"
  "language_of_name ''py'' = Lang ''python''"
  "language_of_name ''constructor'' = Inherited ''constructor''"
  by (simp_all add: language_of_name_def split_pop_def toLowerCase_def lower_char_def
      langMap_get_def langMap_def object_prototype_keys_def truthy_def)

text \<open>
  What \<open>renameItem\<close> does to a file node (the node \<open>findFileById\<close> finds for the id, of
  type \<open>file\<close>): it gives it the new name and the language \<open>language_of_name\<close> computes;
  its id, content and children stay.
\<close>

lemma renameItem_file:
  assumes "findFileById (fs_children fs) itemId = Some f" and "item_type f = ''file''"
  shows "findFileById (fs_children (renameItem fs itemId newName)) itemId =
    Some (Item itemId newName ''file'' (language_of_name newName) (item_content f) (item_children f))"
proof -
  from assms(1) have i: "item_id f = itemId" using findFileById_id by blast
  have "findFileById (fs_children (renameItem fs itemId newName)) itemId =
      Some (renameItem_item itemId newName f)"
    using assms(1) by (simp add: renameItem_def findFileById_rename)
  also have "renameItem_item itemId newName f =
      Item itemId newName ''file'' (language_of_name newName) (item_content f) (item_children f)"
    using assms(2) i by (cases f) simp
  finally show ?thesis .
qed

text \<open>
  What \<open>language_of_name\<close> computes, for every name: the text after the last dot (the whole
  name when it has no dot), in lower case, is looked up; a key of the table gives its
  language, a property name the table object inherits gives the inherited member, and
  everything else gives plaintext.
\<close>

lemma language_of_name_cases:
  "language_of_name n =
    (case map_of langMap (toLowerCase (split_pop n)) of
       Some l \<Rightarrow> Lang l
     | None \<Rightarrow> if toLowerCase (split_pop n) \<in> set object_prototype_keys
               then Inherited (toLowerCase (split_pop n))
               else Lang ''plaintext'')"
proof (cases "map_of langMap (toLowerCase (split_pop n))")
  case None
  then show ?thesis
    by (simp add: language_of_name_def langMap_get_def truthy_def)
next
  case (Some l)
  then have "(toLowerCase (split_pop n), l) \<in> set langMap" by (rule map_of_SomeD)
  then have "l \<noteq> []" by (auto simp: langMap_def)
  with Some show ?thesis
    by (simp add: language_of_name_def langMap_get_def truthy_def)
qed

text \<open>On the example tree: \<open>a.js\<close> renamed to \<open>a.py\<close> and to \<open>a.unknownext\<close>.\<close>

lemma renameItem_file_examples:
  "findFileById (fs_children example_tree) ''file_1'' =
     Some (Item ''file_1'' ''a.js'' ''file'' (Lang ''javascript'') (Some []) None) \<and>
   findFileById (fs_children (renameItem example_tree ''file_1'' ''a.py'')) ''file_1'' =
     Some (Item ''file_1'' ''a.py'' ''file'' (Lang ''python'') (Some []) None) \<and>
   findFileById (fs_children (renameItem example_tree ''file_1'' ''a.unknownext'')) ''file_1'' =
     Some (Item ''file_1'' ''a.unknownext'' ''file'' (Lang ''plaintext'') (Some []) None)"
proof -
  have f: "findFileById (fs_children example_tree) ''file_1'' =
     Some (Item ''file_1'' ''a.js'' ''file'' (Lang ''javascript'') (Some []) None)"
    by (simp add: example_tree_def)
  have t: "item_type (Item ''file_1'' ''a.js'' ''file'' (Lang ''javascript'') (Some []) None) = ''file''"
    by simp
  from renameItem_file [OF f t, of "''a.py''"]
  have py: "findFileById (fs_children (renameItem example_tree ''file_1'' ''a.py'')) ''file_1'' =
     Some (Item ''file_1'' ''a.py'' ''file'' (Lang ''python'') (Some []) None)"
    by (simp add: language_examples)
  from renameItem_file [OF f t, of "''a.unknownext''"]
  have un: "findFileById (fs_children (renameItem example_tree ''file_1'' ''a.unknownext'')) ''file_1'' =
     Some (Item ''file_1'' ''a.unknownext'' ''file'' (Lang ''plaintext'') (Some []) None)"
    by (simp add: language_examples)
  from f py un show ?thesis by simp
qed

text \<open>
  Claim C3 at the name \<open>a.constructor\<close>: the file \<open>a.js\<close>, of language javascript, is
  renamed to it. The extension \<open>constructor\<close> is no key of the table, yet the renamed
  file's language is not plaintext but the member \<open>constructor\<close> that the table object
  inherits from \<open>Object.prototype\<close>. The names of the claim itself come out as it says:
  \<open>a.py\<close> gives python and \<open>a.unknownext\<close> plaintext.
\<close>

theorem rename_to_dot_constructor:
  "findFileById (fs_children example_tree) ''file_1'' =
     Some (Item ''file_1'' ''a.js'' ''file'' (Lang ''javascript'') (Some []) None) \<and>
   split_pop ''a.constructor'' = ''constructor'' \<and>
   map_of langMap (toLowerCase (split_pop ''a.constructor'')) = None \<and>
   language_of_name ''a.constructor'' = Inherited ''constructor'' \<and>
   findFileById (fs_children (renameItem example_tree ''file_1'' ''a.constructor'')) ''file_1'' =
     Some (Item ''file_1'' ''a.constructor'' ''file'' (Inherited ''constructor'') (Some []) None) \<and>
   findFileById (fs_children (renameItem example_tree ''file_1'' ''a.py'')) ''file_1'' =
     Some (Item ''file_1'' ''a.py'' ''file'' (Lang ''python'') (Some []) None) \<and>
   findFileById (fs_children (renameItem example_tree ''file_1'' ''a.unknownext'')) ''file_1'' =
     Some (Item ''file_1'' ''a.unknownext'' ''file'' (Lang ''plaintext'') (Some []) None)"
  by (simp add: language_of_name_def split_pop_def toLowerCase_def lower_char_def
      langMap_get_def langMap_def object_prototype_keys_def truthy_def renameItem_def
      example_tree_def)


lemma createFile_item_match:
  "item_id it = parentId \<Longrightarrow>
    createFile_item parentId nf it =
      Item (item_id it) (item_name it) (item_type it) (item_language it) (item_content it)
        (Some (children_or_empty it @ [nf]))"
  by (cases it) (simp add: children_or_empty_def)

lemma createFile_item_other:
  "item_id it \<noteq> parentId \<Longrightarrow>
    createFile_item parentId nf it =
      Item (item_id it) (item_name it) (item_type it) (item_language it) (item_content it)
        (map_option (createFile_updateTree parentId nf) (item_children it))"
  by (cases it) (simp split: option.splits)

text \<open>
  Claim C2, as amended. \<open>createFile\<close> never fails and compares no names. For the parent
  \<open>root\<close> it appends the new file \<open>untitled.txt\<close> after the root's children; for any
  other parent id it maps \<open>createFile_item\<close> over the tree, which appends the new file
  after the children of a node with that id, whatever their names, and rebuilds every
  other node from its children mapped in the same way.
\<close>

theorem createFile_appends:
  "fs_children (createFile fs ''root'' now) = fs_children fs @ [newFile now] \<and>
   (parentId \<noteq> ''root'' \<longrightarrow>
      fs_children (createFile fs parentId now) =
        map (createFile_item parentId (newFile now)) (fs_children fs)) \<and>
   (item_id it = parentId \<longrightarrow>
      createFile_item parentId (newFile now) it =
        Item (item_id it) (item_name it) (item_type it) (item_language it) (item_content it)
          (Some (children_or_empty it @ [newFile now]))) \<and>
   (item_id it \<noteq> parentId \<longrightarrow>
      createFile_item parentId (newFile now) it =
        Item (item_id it) (item_name it) (item_type it) (item_language it) (item_content it)
          (map_option (map (createFile_item parentId (newFile now))) (item_children it))) \<and>
   item_name (newFile now) = ''untitled.txt''"
proof (intro conjI impI)
  show "fs_children (createFile fs ''root'' now) = fs_children fs @ [newFile now]"
    by (simp add: createFile_def)
  show "fs_children (createFile fs parentId now) =
      map (createFile_item parentId (newFile now)) (fs_children fs)" if "parentId \<noteq> ''root''"
    using that by (simp add: createFile_def createFile_updateTree_map)
  show "createFile_item parentId (newFile now) it =
      Item (item_id it) (item_name it) (item_type it) (item_language it) (item_content it)
        (Some (children_or_empty it @ [newFile now]))" if "item_id it = parentId"
    using that by (rule createFile_item_match)
  have "createFile_updateTree parentId (newFile now) = map (createFile_item parentId (newFile now))"
    by (rule ext) (rule createFile_updateTree_map)
  then show "createFile_item parentId (newFile now) it =
      Item (item_id it) (item_name it) (item_type it) (item_language it) (item_content it)
        (map_option (map (createFile_item parentId (newFile now))) (item_children it))"
    if "item_id it \<noteq> parentId"
    using that createFile_item_other [of it parentId "newFile now"] by simp
  show "item_name (newFile now) = ''untitled.txt''"
    by (simp add: newFile_def)
qed

lemma string_of_nat_3: "string_of_nat 3 = ''3''"
  by (simp add: digit_char_def)

lemma createFile_example:
  "createFile example_tree ''project1'' 3 =
    \<lparr>fs_id = ''root'', fs_name = ''Projects'', fs_type = ''folder'',
     fs_children =
       [Item ''project1'' ''my-web-app'' ''folder'' Undefined None
          (Some [Item ''file_1'' ''a.js'' ''file'' (Lang ''javascript'') (Some []) None,
                 Item ''file_2'' ''untitled.txt'' ''file'' (Lang ''plaintext'') (Some []) None,
                 Item ''file_3'' ''untitled.txt'' ''file'' (Lang ''plaintext'') (Some []) None])]\<rparr>"
  by (simp add: createFile_def example_tree_def newFile_def digit_char_def)

theorem createFile_appends_witness:
  "''project1'' \<noteq> ''root'' \<and>
   item_id (Item ''project1'' ''my-web-app'' ''folder'' Undefined None (Some [])) = ''project1'' \<and>
   item_id (Item ''file_1'' ''a.js'' ''file'' (Lang ''javascript'') (Some []) None) \<noteq> ''project1'' \<and>
   fs_children (createFile example_tree ''project1'' 3) =
     map (createFile_item ''project1'' (newFile 3)) (fs_children example_tree) \<and>
   createFile_item ''project1'' (newFile 3)
       (Item ''project1'' ''my-web-app'' ''folder'' Undefined None (Some [])) =
     Item ''project1'' ''my-web-app'' ''folder'' Undefined None (Some [newFile 3]) \<and>
   createFile_item ''project1'' (newFile 3)
       (Item ''file_1'' ''a.js'' ''file'' (Lang ''javascript'') (Some []) None) =
     Item ''file_1'' ''a.js'' ''file'' (Lang ''javascript'') (Some []) None"
proof -
  have a: "''project1'' \<noteq> ''root''" by simp
  have b: "item_id (Item ''project1'' ''my-web-app'' ''folder'' Undefined None (Some [])) = ''project1''"
    by simp
  have c: "item_id (Item ''file_1'' ''a.js'' ''file'' (Lang ''javascript'') (Some []) None) \<noteq> ''project1''"
    by simp
  have e: "fs_children (createFile example_tree ''project1'' 3) =
        map (createFile_item ''project1'' (newFile 3)) (fs_children example_tree)"
    using createFile_appends [of example_tree 3 "''project1''" undefined, THEN conjunct2, THEN conjunct1] a
    by (rule mp)
  have f: "createFile_item ''project1'' (newFile 3)
       (Item ''project1'' ''my-web-app'' ''folder'' Undefined None (Some [])) =
     Item ''project1'' ''my-web-app'' ''folder'' Undefined None (Some [newFile 3])"
    using createFile_appends [of example_tree 3 "''project1''"
        "Item ''project1'' ''my-web-app'' ''folder'' Undefined None (Some [])",
        THEN conjunct2, THEN conjunct2, THEN conjunct1]
    by (simp add: children_or_empty_def)
  have g: "createFile_item ''project1'' (newFile 3)
       (Item ''file_1'' ''a.js'' ''file'' (Lang ''javascript'') (Some []) None) =
     Item ''file_1'' ''a.js'' ''file'' (Lang ''javascript'') (Some []) None"
    using createFile_appends [of example_tree 3 "''project1''"
        "Item ''file_1'' ''a.js'' ''file'' (Lang ''javascript'') (Some []) None",
        THEN conjunct2, THEN conjunct2, THEN conjunct2, THEN conjunct1]
    by simp
  from a b c e f g show ?thesis by (intro conjI)
qed

text \<open>
  Claim C2 as stated fails: the folder \<open>project1\<close> of the example tree already has a child
  named \<open>untitled.txt\<close>; creating a file in it changes the tree and leaves two siblings
  with that name.
\<close>

theorem createFile_duplicate_counterexample:
  "''untitled.txt'' \<in> set (map item_name (children_or_empty (hd (fs_children example_tree)))) \<and>
   createFile example_tree ''project1'' 3 \<noteq> example_tree \<and>
   map item_name (children_or_empty (hd (fs_children (createFile example_tree ''project1'' 3)))) =
     [''a.js'', ''untitled.txt'', ''untitled.txt'']"
  unfolding createFile_example
  by (simp add: example_tree_def children_or_empty_def)

text \<open>
  Claim C10 at the name \<open>constructor\<close>: it has no dot and is no key of the table, yet the
  renamed file's language is not plaintext but the member \<open>constructor\<close> that the table
  object inherits from \<open>Object.prototype\<close>.
\<close>

theorem rename_to_constructor:
  "CHR ''.'' \<notin> set ''constructor'' \<and>
   map_of langMap (toLowerCase ''constructor'') = None \<and>
   language_of_name ''constructor'' = Inherited ''constructor'' \<and>
   findFileById (fs_children (renameItem example_tree ''file_1'' ''constructor'')) ''file_1'' =
     Some (Item ''file_1'' ''constructor'' ''file'' (Inherited ''constructor'') (Some []) None)"
  by (simp add: language_examples renameItem_def example_tree_def toLowerCase_def lower_char_def
      langMap_def)

text \<open>
  What the code does for every name without a dot: the whole name, in lower case, is
  looked up; a key of the table gives its language (\<open>py\<close> gives python), an inherited
  property name gives the inherited member, and every other name gives plaintext.
\<close>

lemma split_pop_no_dot: "CHR ''.'' \<notin> set s \<Longrightarrow> split_pop s = s"
proof -
  assume "CHR ''.'' \<notin> set s"
  then have "\<forall>x \<in> set (rev s). x \<noteq> CHR ''.''" by auto
  then have "takeWhile (\<lambda>c. c \<noteq> CHR ''.'') (rev s) = rev s"
    by (simp only: takeWhile_eq_all_conv)
  then show ?thesis by (simp only: split_pop_def rev_rev_ident)
qed

lemma language_of_dotless_name:
  assumes "CHR ''.'' \<notin> set n"
  shows "language_of_name n =
    (case map_of langMap (toLowerCase n) of
       Some l \<Rightarrow> Lang l
     | None \<Rightarrow> if toLowerCase n \<in> set object_prototype_keys then Inherited (toLowerCase n)
               else Lang ''plaintext'')"
proof (cases "map_of langMap (toLowerCase n)")
  case None
  then show ?thesis
    using assms by (simp add: language_of_name_def split_pop_no_dot langMap_get_def truthy_def)
next
  case (Some l)
  then have "(toLowerCase n, l) \<in> set langMap" by (rule map_of_SomeD)
  then have "l \<noteq> []" by (auto simp: langMap_def)
  with Some show ?thesis
    using assms by (simp add: language_of_name_def split_pop_no_dot langMap_get_def truthy_def)
qed

section \<open>Properties of the editor\<close>

subsection \<open>Rendering and the invariant\<close>

lemma clearTimeout_ref_all:
  "timers_ok s \<Longrightarrow> pending_timers (clearTimeout_ref s) = []"
proof (cases "saveTimeoutRef s")
  case None
  assume "timers_ok s"
  with None have "pending_timers s = []"
    by (cases "pending_timers s") (simp_all add: timers_ok_def)
  with None show ?thesis by (simp add: clearTimeout_ref_def)
next
  case (Some t)
  assume "timers_ok s"
  with Some show ?thesis
    by (auto simp: timers_ok_def clearTimeout_ref_def list_all_iff filter_empty_conv)
qed

lemma commit_pass_committed: "committed s \<Longrightarrow> commit_pass s = s"
  by (simp add: committed_def commit_pass_def Let_def)

lemma render_committed: "committed s \<Longrightarrow> render s = s"
  by (simp add: render_def commit_pass_committed)


lemma clearTimeout_ref_fields [simp]:
  "content (clearTimeout_ref s) = content s"
  "hasChanges (clearTimeout_ref s) = hasChanges s"
  "isSaving (clearTimeout_ref s) = isSaving s"
  "lastSaved (clearTimeout_ref s) = lastSaved s"
  "editorFile (clearTimeout_ref s) = editorFile s"
  "saveTimeoutRef (clearTimeout_ref s) = saveTimeoutRef s"
  "pending_saves (clearTimeout_ref s) = pending_saves s"
  "effectA_deps (clearTimeout_ref s) = effectA_deps s"
  "effectB_deps (clearTimeout_ref s) = effectB_deps s"
  "clock (clearTimeout_ref s) = clock s"
  "next_timer (clearTimeout_ref s) = next_timer s"
  "next_object (clearTimeout_ref s) = next_object s"
  "updateFile_calls (clearTimeout_ref s) = updateFile_calls s"
  "console_errors (clearTimeout_ref s) = console_errors s"
  by (simp_all add: clearTimeout_ref_def split: option.splits)

lemma autosave_effect_fields [simp]:
  "content (autosave_effect cl s) = content s"
  "hasChanges (autosave_effect cl s) = hasChanges s"
  "isSaving (autosave_effect cl s) = isSaving s"
  "lastSaved (autosave_effect cl s) = lastSaved s"
  "editorFile (autosave_effect cl s) = editorFile s"
  "pending_saves (autosave_effect cl s) = pending_saves s"
  "effectA_deps (autosave_effect cl s) = effectA_deps s"
  "effectB_deps (autosave_effect cl s) = effectB_deps s"
  "clock (autosave_effect cl s) = clock s"
  "next_object (autosave_effect cl s) = next_object s"
  "updateFile_calls (autosave_effect cl s) = updateFile_calls s"
  "console_errors (autosave_effect cl s) = console_errors s"
  by (simp_all add: autosave_effect_def Let_def)

lemma commit_pass_fields [simp]:
  "isSaving (commit_pass s) = isSaving s"
  "editorFile (commit_pass s) = editorFile s"
  "pending_saves (commit_pass s) = pending_saves s"
  "clock (commit_pass s) = clock s"
  "next_object (commit_pass s) = next_object s"
  "updateFile_calls (commit_pass s) = updateFile_calls s"
  "console_errors (commit_pass s) = console_errors s"
  "effectA_deps (commit_pass s) = Some (map_option fst (editorFile s))"
  by (simp_all add: commit_pass_def Let_def split: option.splits)

lemma timers_ok_clear: "timers_ok s \<Longrightarrow> timers_ok (clearTimeout_ref s)"
  by (auto simp: timers_ok_def clearTimeout_ref_def list_all_iff split: option.splits)

lemma timers_ok_autosave: "timers_ok s \<Longrightarrow> timers_ok (autosave_effect cl s)"
  by (auto simp: timers_ok_def autosave_effect_def Let_def clearTimeout_ref_def list_all_iff
      split: option.splits)

lemma timers_ok_commit_pass: "timers_ok s \<Longrightarrow> timers_ok (commit_pass s)"
proof -
  assume t: "timers_ok s"
  have upd: "timers_ok (x\<lparr>effectA_deps := a, effectB_deps := b\<rparr>) = timers_ok x" for x a b
    by (simp add: timers_ok_def)
  have upd2: "timers_ok (x\<lparr>content := a, hasChanges := b, lastSaved := c\<rparr>) = timers_ok x" for x a b c
    by (simp add: timers_ok_def)
  show ?thesis
    using t by (simp add: commit_pass_def Let_def upd upd2 timers_ok_clear timers_ok_autosave
        split: option.splits)
qed

lemma refs_ok_commit_pass: "refs_ok s \<Longrightarrow> refs_ok (commit_pass s)"
  using timers_ok_commit_pass [of s] by (simp add: refs_ok_def)

lemma refs_ok_render: "refs_ok s \<Longrightarrow> refs_ok (render s)"
  by (simp add: render_def refs_ok_commit_pass)

lemma commit_pass_second:
  assumes "effectA_deps s = Some (map_option fst (editorFile s))"
  shows "committed (commit_pass s)"
  using assms by (simp add: committed_def commit_pass_def Let_def)

lemma committed_render: "committed (render s)"
  unfolding render_def by (rule commit_pass_second) simp

lemma render_stable: "commit_pass (render s) = render s"
  by (simp add: commit_pass_committed committed_render)

lemma editor_inv_render: "refs_ok s \<Longrightarrow> editor_inv (render s)"
  by (simp add: editor_inv_def committed_render refs_ok_render)


lemma editor_inv_init: "editor_inv editor_init"
  by (simp add: editor_inv_def committed_def refs_ok_def timers_ok_def editor_init_def)

lemma editor_inv_handleFileSelect: "editor_inv s \<Longrightarrow> editor_inv (handleFileSelect f s)"
  unfolding handleFileSelect_def
  by (rule editor_inv_render) (simp add: editor_inv_def refs_ok_def timers_ok_def)

lemma editor_inv_handleTextChange: "editor_inv s \<Longrightarrow> editor_inv (handleTextChange v s)"
  unfolding handleTextChange_def
  by (rule editor_inv_render, cases "editorFile s")
    (simp_all add: editor_inv_def refs_ok_def timers_ok_def)

lemma editor_inv_insertText: "editor_inv s \<Longrightarrow> editor_inv (insertText a b t s)"
proof (cases "editorFile s = None")
  case True
  assume "editor_inv s"
  with True show ?thesis by (simp add: insertText_def)
next
  case False
  assume "editor_inv s"
  then have "refs_ok (s\<lparr>content := take a (content s) @ t @ drop b (content s), hasChanges := True\<rparr>)"
    by (simp add: editor_inv_def refs_ok_def timers_ok_def)
  moreover from False have "insertText a b t s =
      render (s\<lparr>content := take a (content s) @ t @ drop b (content s), hasChanges := True\<rparr>)"
    by (simp only: insertText_def if_False)
  ultimately show ?thesis by (simp only: editor_inv_render)
qed

lemma editor_inv_saveFile: "editor_inv s \<Longrightarrow> editor_inv (saveFile cl s)"
proof (cases "cl_activeFile cl")
  case None
  assume "editor_inv s"
  with None show ?thesis by (simp add: saveFile_def)
next
  case (Some r)
  assume inv: "editor_inv s"
  then have "refs_ok (s\<lparr>isSaving := True,
      updateFile_calls := updateFile_calls s @ [(file_path (snd r), cl_content cl)],
      pending_saves := pending_saves s @ [cl]\<rparr>)"
    by (simp add: editor_inv_def refs_ok_def timers_ok_def)
  with Some inv show ?thesis by (simp add: saveFile_def editor_inv_render)
qed

lemma editor_inv_fire_timer: "editor_inv s \<Longrightarrow> editor_inv (fire_timer t s)"
proof (cases "find (\<lambda>p. fst p = t) (pending_timers s)")
  case None
  assume "editor_inv s"
  with None show ?thesis by (simp add: fire_timer_def)
next
  case (Some p)
  assume inv: "editor_inv s"
  then have "editor_inv (s\<lparr>pending_timers := filter (\<lambda>p. fst p \<noteq> t) (pending_timers s)\<rparr>)"
    by (auto simp: editor_inv_def committed_def refs_ok_def timers_ok_def list_all_iff
       )
  with Some show ?thesis by (simp add: fire_timer_def editor_inv_saveFile)
qed

lemma editor_inv_fire_all: "editor_inv s \<Longrightarrow> editor_inv (foldl (\<lambda>s t. fire_timer t s) s ts)"
  by (induction ts arbitrary: s) (simp_all add: editor_inv_fire_timer)

lemma editor_inv_advance: "editor_inv s \<Longrightarrow> editor_inv (advance dt s)"
proof -
  assume "editor_inv s"
  then have "editor_inv (s\<lparr>clock := clock s + dt\<rparr>)"
    by (simp add: editor_inv_def committed_def refs_ok_def timers_ok_def)
  then show ?thesis by (simp add: advance_def Let_def editor_inv_fire_all)
qed

lemma editor_inv_save_resolved: "editor_inv s \<Longrightarrow> editor_inv (save_resolved i now s)"
proof (cases "i < length (pending_saves s)")
  case False
  assume "editor_inv s"
  with False show ?thesis by (simp add: save_resolved_def)
next
  case True
  assume "editor_inv s"
  then have r: "refs_ok s" by (simp add: editor_inv_def)
  have m: "pred_option (\<lambda>r. fst r < Suc (next_object s)) (editorFile s)"
    using r by (cases "editorFile s") (simp_all add: refs_ok_def)
  show ?thesis
    using True unfolding save_resolved_def Let_def
    by (simp only: if_True) (rule editor_inv_render,
        use r m in \<open>auto simp: refs_ok_def timers_ok_def split: option.splits\<close>)
qed

lemma editor_inv_save_rejected: "editor_inv s \<Longrightarrow> editor_inv (save_rejected i m s)"
proof (cases "i < length (pending_saves s)")
  case False
  assume "editor_inv s"
  with False show ?thesis by (simp add: save_rejected_def)
next
  case True
  assume "editor_inv s"
  then have r: "refs_ok s" by (simp add: editor_inv_def)
  show ?thesis
    using True unfolding save_rejected_def
    by (simp only: if_True) (rule editor_inv_render,
        use r in \<open>auto simp: refs_ok_def timers_ok_def split: option.splits\<close>)
qed

lemma editor_inv_step: "editor_inv s \<Longrightarrow> editor_inv (editor_step ev s)"
  by (cases ev)
    (simp_all add: editor_step_def editor_inv_handleFileSelect editor_inv_handleTextChange
      editor_inv_insertText editor_inv_saveFile manual_save_def editor_inv_advance
      editor_inv_save_resolved editor_inv_save_rejected)

lemma editor_reachable_inv: "editor_reachable s \<Longrightarrow> editor_inv s"
  by (induction rule: editor_reachable.induct) (simp_all add: editor_inv_init editor_inv_step)

lemma editor_reachable_run: "editor_reachable s \<Longrightarrow> editor_reachable (editor_run evs s)"
  by (induction evs arbitrary: s) (auto intro: editor_reachable_step)


subsection \<open>Saving\<close>

lemma committed_update_other:
  "committed s \<Longrightarrow>
    committed (s\<lparr>pending_saves := a, console_errors := b, isSaving := c\<rparr>)"
  "committed s \<Longrightarrow>
    committed (s\<lparr>isSaving := c, updateFile_calls := d, pending_saves := a\<rparr>)"
  by (simp_all add: committed_def)

lemma save_rejected_eq:
  assumes "committed s" and "i < length (pending_saves s)"
  shows "save_rejected i message s =
    s\<lparr>pending_saves := take i (pending_saves s) @ drop (Suc i) (pending_saves s),
      console_errors := console_errors s @ [''Error saving file: '' @ message],
      isSaving := False\<rparr>"
  using assms by (simp add: save_rejected_def render_committed committed_update_other)

lemma manual_save_eq:
  assumes "committed s" and "hasChanges s" and "editorFile s = Some r"
  shows "manual_save s =
    s\<lparr>isSaving := True,
      updateFile_calls := updateFile_calls s @ [(file_path (snd r), content s)],
      pending_saves := pending_saves s @ [current_closure s]\<rparr>"
  using assms
  by (simp add: manual_save_def saveFile_def current_closure_def render_committed
      committed_update_other)

subsection \<open>Typing into the textarea\<close>

text \<open>
  The commit after \<open>handleTextChange\<close>: the new \<open>activeFile\<close> object makes both effects
  run. The auto-save effect schedules the save; the first effect's setters reset
  \<open>hasChanges\<close>.
\<close>

lemma handleTextChange_pass1:
  assumes "editor_inv s" and "editorFile s = Some r"
  shows "commit_pass (s\<lparr>content := v, hasChanges := True,
              editorFile := Some (next_object s, (snd r)\<lparr>file_content := Some v\<rparr>),
              next_object := Suc (next_object s)\<rparr>) =
    s\<lparr>content := v, hasChanges := False, lastSaved := file_modified_at (snd r),
      editorFile := Some (next_object s, (snd r)\<lparr>file_content := Some v\<rparr>),
      next_object := Suc (next_object s),
      saveTimeoutRef := Some (next_timer s),
      pending_timers := [(next_timer s, clock s + 2000,
        \<lparr>cl_activeFile = Some (next_object s, (snd r)\<lparr>file_content := Some v\<rparr>),
         cl_hasChanges = True, cl_content = v\<rparr>)],
      next_timer := Suc (next_timer s),
      effectA_deps := Some (Some (next_object s)),
      effectB_deps := Some (v, True, Some (next_object s))\<rparr>"
proof -
  let ?s' = "s\<lparr>content := v, hasChanges := True,
              editorFile := Some (next_object s, (snd r)\<lparr>file_content := Some v\<rparr>),
              next_object := Suc (next_object s)\<rparr>"
  from assms have a: "effectA_deps s = Some (Some (fst r))"
    and b: "effectB_deps s = Some (content s, hasChanges s, Some (fst r))"
    and f: "fst r < next_object s" and t: "timers_ok s"
    by (simp_all add: editor_inv_def committed_def refs_ok_def)
  have t': "timers_ok ?s'" using t by (simp add: timers_ok_def)
  have c: "pending_timers (clearTimeout_ref ?s') = []"
    using t' by (rule clearTimeout_ref_all)
  then have c1: "clearTimeout_ref ?s' = ?s'\<lparr>pending_timers := []\<rparr>"
    by (simp add: clearTimeout_ref_def split: option.splits)
  have c2: "clearTimeout_ref (?s'\<lparr>pending_timers := []\<rparr>) = ?s'\<lparr>pending_timers := []\<rparr>"
    by (simp add: clearTimeout_ref_def split: option.splits)
  from f have ne: "next_object s \<noteq> fst r" by simp
  show ?thesis
    unfolding commit_pass_def Let_def
    using a b ne
    by (simp add: c1 autosave_effect_def current_closure_def c2 Let_def)
qed

text \<open>
  The re-render sees \<open>hasChanges\<close> changed, so the auto-save effect runs again: its
  cleanup clears the timer just set, and its body sets none.
\<close>

lemma handleTextChange_eq:
  assumes "editor_inv s" and "editorFile s = Some r"
  shows "handleTextChange v s =
    s\<lparr>content := v, hasChanges := False, lastSaved := file_modified_at (snd r),
      editorFile := Some (next_object s, (snd r)\<lparr>file_content := Some v\<rparr>),
      next_object := Suc (next_object s),
      saveTimeoutRef := Some (next_timer s),
      pending_timers := [],
      next_timer := Suc (next_timer s),
      effectA_deps := Some (Some (next_object s)),
      effectB_deps := Some (v, False, Some (next_object s))\<rparr>"
proof -
  have "handleTextChange v s = commit_pass (commit_pass (s\<lparr>content := v, hasChanges := True,
              editorFile := Some (next_object s, (snd r)\<lparr>file_content := Some v\<rparr>),
              next_object := Suc (next_object s)\<rparr>))"
    using assms(2) by (simp add: handleTextChange_def render_def)
  also have "\<dots> = commit_pass (s\<lparr>content := v, hasChanges := False, lastSaved := file_modified_at (snd r),
      editorFile := Some (next_object s, (snd r)\<lparr>file_content := Some v\<rparr>),
      next_object := Suc (next_object s),
      saveTimeoutRef := Some (next_timer s),
      pending_timers := [(next_timer s, clock s + 2000,
        \<lparr>cl_activeFile = Some (next_object s, (snd r)\<lparr>file_content := Some v\<rparr>),
         cl_hasChanges = True, cl_content = v\<rparr>)],
      next_timer := Suc (next_timer s),
      effectA_deps := Some (Some (next_object s)),
      effectB_deps := Some (v, True, Some (next_object s))\<rparr>)"
    by (simp only: handleTextChange_pass1 [OF assms])
  also have "\<dots> = s\<lparr>content := v, hasChanges := False, lastSaved := file_modified_at (snd r),
      editorFile := Some (next_object s, (snd r)\<lparr>file_content := Some v\<rparr>),
      next_object := Suc (next_object s),
      saveTimeoutRef := Some (next_timer s),
      pending_timers := [],
      next_timer := Suc (next_timer s),
      effectA_deps := Some (Some (next_object s)),
      effectB_deps := Some (v, False, Some (next_object s))\<rparr>"
    unfolding commit_pass_def Let_def
    by (simp add: clearTimeout_ref_def autosave_effect_def current_closure_def)
  finally show ?thesis .
qed

lemma advance_no_timers:
  "pending_timers s = [] \<Longrightarrow> advance dt s = s\<lparr>clock := clock s + dt\<rparr>"
  by (simp add: advance_def Let_def)


lemma typing_never_saves:
  assumes "editor_inv s" and "editorFile s \<noteq> None" and "pending_timers s = []"
    and "list_all typing_event evs"
  shows "updateFile_calls (editor_run evs s) = updateFile_calls s \<and>
         pending_saves (editor_run evs s) = pending_saves s \<and>
         pending_timers (editor_run evs s) = []"
  using assms
proof (induction evs arbitrary: s)
  case Nil
  then show ?case by simp
next
  case (Cons ev evs)
  from Cons.prems(2) obtain r where r: "editorFile s = Some r" by auto
  have step: "editor_inv (editor_step ev s) \<and> editorFile (editor_step ev s) \<noteq> None \<and>
      pending_timers (editor_step ev s) = [] \<and>
      updateFile_calls (editor_step ev s) = updateFile_calls s \<and>
      pending_saves (editor_step ev s) = pending_saves s"
  proof (cases ev)
    case (TextChange v)
    have "editor_step ev s = handleTextChange v s" by (simp add: TextChange editor_step_def)
    moreover have "editor_inv (handleTextChange v s)"
      using Cons.prems(1) by (rule editor_inv_handleTextChange)
    ultimately show ?thesis
      using handleTextChange_eq [OF Cons.prems(1) r, of v] by simp
  next
    case (Advance dt)
    have "editor_step ev s = s\<lparr>clock := clock s + dt\<rparr>"
      using Cons.prems(3) by (simp add: Advance editor_step_def advance_no_timers)
    moreover have "editor_inv (editor_step ev s)"
      using Cons.prems(1) by (rule editor_inv_step)
    ultimately show ?thesis using Cons.prems(2,3) by simp
  qed (use Cons.prems(4) in simp_all)
  have "updateFile_calls (editor_run evs (editor_step ev s)) = updateFile_calls (editor_step ev s) \<and>
         pending_saves (editor_run evs (editor_step ev s)) = pending_saves (editor_step ev s) \<and>
         pending_timers (editor_run evs (editor_step ev s)) = []"
    using step Cons.prems(4) by (intro Cons.IH) simp_all
  with step show ?case by simp
qed

lemma text_change_resets_dirty:
  assumes "editor_inv s" and "editorFile s \<noteq> None"
  shows "\<not> hasChanges (handleTextChange v s) \<and> content (handleTextChange v s) = v \<and>
         pending_timers (handleTextChange v s) = []"
proof -
  from assms(2) obtain r where "editorFile s = Some r" by auto
  from handleTextChange_eq [OF assms(1) this, of v] show ?thesis by simp
qed

lemma opened_state:
  "editor_run [FileSelect example_file] editor_init =
    editor_init\<lparr>content := ''let a'', lastSaved := Some ''2024-01-01T00:00:00.000Z'',
      editorFile := Some (0, example_file), next_object := 1,
      effectA_deps := Some (Some 0), effectB_deps := Some (''let a'', False, Some 0)\<rparr>"
  by (simp add: editor_step_def handleFileSelect_def render_def commit_pass_def Let_def
     editor_init_def example_file_def clearTimeout_ref_def autosave_effect_def current_closure_def)

text \<open>
  Claim C8 at a failing input. A file is opened and \<open>let ab\<close> is typed: the editor holds
  the text, is no longer marked changed and has no pending timer; after a quiet period
  of 2001 ms no \<open>fileAPI.updateFile\<close> has been called, where the claim has exactly one
  save. Two edits 1000 ms apart followed by a quiet period give no save either.
\<close>

theorem typing_is_never_auto_saved:
  "content (editor_run [FileSelect example_file, TextChange ''let ab'', Advance 2001] editor_init) = ''let ab'' \<and>
   \<not> hasChanges (editor_run [FileSelect example_file, TextChange ''let ab''] editor_init) \<and>
   pending_timers (editor_run [FileSelect example_file, TextChange ''let ab''] editor_init) = [] \<and>
   updateFile_calls (editor_run [FileSelect example_file, TextChange ''let ab'', Advance 2001] editor_init) = [] \<and>
   updateFile_calls (editor_run [FileSelect example_file, TextChange ''let ab'', Advance 1000,
     TextChange ''let abc'', Advance 2001] editor_init) = []"
  by code_simp

text \<open>
  The effect itself debounces: text inserted by \<open>insertText\<close>, which does not replace the
  \<open>activeFile\<close> object, is saved once, 2000 ms after the last insertion, with the
  latest content.
\<close>

lemma dirty_state:
  "editor_run [FileSelect example_file, InsertText 5 5 ''b''] editor_init =
   \<lparr>content = ''let ab'', hasChanges = True, isSaving = False,
    lastSaved = Some ''2024-01-01T00:00:00.000Z'',
    editorFile = Some (0, example_file),
    saveTimeoutRef = Some 1,
    pending_timers = [(1, 2000, \<lparr>cl_activeFile = Some (0, example_file), cl_hasChanges = True, cl_content = ''let ab''\<rparr>)],
    pending_saves = [],
    effectA_deps = Some (Some 0),
    effectB_deps = Some (''let ab'', True, Some 0), clock = 0,
    next_timer = 2, next_object = 1, updateFile_calls = [], console_errors = []\<rparr>"
  by (simp add: editor_step_def handleFileSelect_def insertText_def render_def commit_pass_def Let_def
     editor_init_def example_file_def clearTimeout_ref_def autosave_effect_def current_closure_def)

lemma inserted_text_is_auto_saved_once:
  "updateFile_calls (editor_run [InsertText 6 6 ''c'', Advance 1999]
     (editor_run [FileSelect example_file, InsertText 5 5 ''b'', Advance 1000] editor_init)) = [] \<and>
   updateFile_calls (editor_run [InsertText 6 6 ''c'', Advance 2000, Advance 5000]
     (editor_run [FileSelect example_file, InsertText 5 5 ''b'', Advance 1000] editor_init)) =
     [(''/a.js'', ''let abc'')]"
proof -
  have a: "editor_run [FileSelect example_file, InsertText 5 5 ''b'', Advance 1000] editor_init =
      editor_step (Advance 1000) (editor_run [FileSelect example_file, InsertText 5 5 ''b''] editor_init)"
    by simp
  have b: "editor_run [InsertText 6 6 ''c''] (editor_run [FileSelect example_file, InsertText 5 5 ''b'', Advance 1000] editor_init) =
   \<lparr>content = ''let abc'', hasChanges = True, isSaving = False,
    lastSaved = Some ''2024-01-01T00:00:00.000Z'',
    editorFile = Some (0, example_file),
    saveTimeoutRef = Some 2,
    pending_timers = [(2, 3000, \<lparr>cl_activeFile = Some (0, example_file), cl_hasChanges = True, cl_content = ''let abc''\<rparr>)],
    pending_saves = [],
    effectA_deps = Some (Some 0),
    effectB_deps = Some (''let abc'', True, Some 0), clock = 1000,
    next_timer = 3, next_object = 1, updateFile_calls = [], console_errors = []\<rparr>"
    unfolding a dirty_state
    by (simp add: editor_step_def advance_def insertText_def render_def commit_pass_def Let_def
        clearTimeout_ref_def autosave_effect_def current_closure_def)
  have c: "editor_run [InsertText 6 6 ''c'', Advance 1999] s =
      editor_step (Advance 1999) (editor_run [InsertText 6 6 ''c''] s)"
    and d: "editor_run [InsertText 6 6 ''c'', Advance 2000, Advance 5000] s =
      editor_step (Advance 5000) (editor_step (Advance 2000) (editor_run [InsertText 6 6 ''c''] s))"
    for s
    by simp_all
  show ?thesis
    unfolding c d b
    by (simp add: editor_step_def advance_def fire_timer_def saveFile_def render_def commit_pass_def
        Let_def clearTimeout_ref_def autosave_effect_def current_closure_def example_file_def)
qed

text \<open>
  Claim C7. In every reachable state, when a pending \<open>updateFile\<close> fails, \<open>hasChanges\<close>,
  \<open>content\<close>, \<open>lastSaved\<close> and the \<open>activeFile\<close> object are what they were, \<open>isSaving\<close>
  is reset and the error is written with \<open>console.error\<close>. In particular, from a state
  with unsaved edits of an open file, a save that is requested and then fails leaves
  the file marked changed with its content as before the attempt: \<open>updateFile\<close> was
  called with that content, no success is recorded, and the error is logged.
\<close>

theorem failed_save_keeps_edit:
  assumes "editor_reachable s"
  shows "(i < length (pending_saves s) \<longrightarrow>
       (let s' = save_rejected i message s in
        hasChanges s' = hasChanges s \<and> content s' = content s \<and> lastSaved s' = lastSaved s \<and>
        editorFile s' = editorFile s \<and> \<not> isSaving s' \<and>
        console_errors s' = console_errors s @ [''Error saving file: '' @ message])) \<and>
    (hasChanges s \<and> editorFile s = Some r \<longrightarrow>
       (let s1 = manual_save s; s2 = save_rejected (length (pending_saves s)) message s1 in
          updateFile_calls s1 = updateFile_calls s @ [(file_path (snd r), content s)] \<and>
          hasChanges s2 \<and> content s2 = content s \<and> lastSaved s2 = lastSaved s \<and>
          editorFile s2 = editorFile s \<and> \<not> isSaving s2 \<and>
          console_errors s2 = console_errors s @ [''Error saving file: '' @ message]))"
proof (intro conjI impI)
  from assms have c: "committed s" using editor_reachable_inv by (simp add: editor_inv_def)
  {
    assume i: "i < length (pending_saves s)"
    show "let s' = save_rejected i message s in
        hasChanges s' = hasChanges s \<and> content s' = content s \<and> lastSaved s' = lastSaved s \<and>
        editorFile s' = editorFile s \<and> \<not> isSaving s' \<and>
        console_errors s' = console_errors s @ [''Error saving file: '' @ message]"
      unfolding Let_def save_rejected_eq [OF c i] by simp
  }
  {
    assume a: "hasChanges s \<and> editorFile s = Some r"
    then have m: "manual_save s =
      s\<lparr>isSaving := True,
        updateFile_calls := updateFile_calls s @ [(file_path (snd r), content s)],
        pending_saves := pending_saves s @ [current_closure s]\<rparr>"
      using c by (intro manual_save_eq) simp_all
    have c1: "committed (manual_save s)"
      unfolding m using c by (rule committed_update_other)
    have l: "length (pending_saves s) < length (pending_saves (manual_save s))"
      unfolding m by simp
    show "let s1 = manual_save s; s2 = save_rejected (length (pending_saves s)) message s1 in
          updateFile_calls s1 = updateFile_calls s @ [(file_path (snd r), content s)] \<and>
          hasChanges s2 \<and> content s2 = content s \<and> lastSaved s2 = lastSaved s \<and>
          editorFile s2 = editorFile s \<and> \<not> isSaving s2 \<and>
          console_errors s2 = console_errors s @ [''Error saving file: '' @ message]"
      unfolding Let_def save_rejected_eq [OF c1 l] using a by (simp add: m)
  }
qed


text \<open>
  The theorem after inserting text into the opened example file (a manual save that fails)
  and 2000 ms later (the auto-save that fails).
\<close>

lemma saving_state:
  "editor_run [FileSelect example_file, InsertText 5 5 ''b'', Advance 2000] editor_init =
   \<lparr>content = ''let ab'', hasChanges = True, isSaving = True,
    lastSaved = Some ''2024-01-01T00:00:00.000Z'',
    editorFile = Some (0, example_file),
    saveTimeoutRef = Some 1,
    pending_timers = [],
    pending_saves = [\<lparr>cl_activeFile = Some (0, example_file), cl_hasChanges = True, cl_content = ''let ab''\<rparr>],
    effectA_deps = Some (Some 0),
    effectB_deps = Some (''let ab'', True, Some 0), clock = 2000,
    next_timer = 2, next_object = 1, updateFile_calls = [(''/a.js'', ''let ab'')], console_errors = []\<rparr>"
proof -
  have a: "editor_run [FileSelect example_file, InsertText 5 5 ''b'', Advance 2000] editor_init =
      editor_step (Advance 2000) (editor_run [FileSelect example_file, InsertText 5 5 ''b''] editor_init)"
    by simp
  show ?thesis
    unfolding a dirty_state
    by (simp add: editor_step_def advance_def fire_timer_def saveFile_def render_def commit_pass_def
        Let_def clearTimeout_ref_def autosave_effect_def current_closure_def example_file_def)
qed

theorem failed_save_keeps_edit_witness:
  "editor_reachable (editor_run [FileSelect example_file, InsertText 5 5 ''b''] editor_init) \<and>
   hasChanges (editor_run [FileSelect example_file, InsertText 5 5 ''b''] editor_init) \<and>
   editorFile (editor_run [FileSelect example_file, InsertText 5 5 ''b''] editor_init) =
     Some (0, example_file) \<and>
   (let s1 = manual_save (editor_run [FileSelect example_file, InsertText 5 5 ''b''] editor_init);
        s2 = save_rejected 0 ''Network Error'' s1
    in updateFile_calls s1 = [(''/a.js'', ''let ab'')] \<and> hasChanges s2 \<and> content s2 = ''let ab'' \<and>
       \<not> isSaving s2 \<and> console_errors s2 = [''Error saving file: Network Error'']) \<and>
   editor_reachable (editor_run [FileSelect example_file, InsertText 5 5 ''b'', Advance 2000] editor_init) \<and>
   0 < length (pending_saves
     (editor_run [FileSelect example_file, InsertText 5 5 ''b'', Advance 2000] editor_init)) \<and>
   (let s' = save_rejected 0 ''Network Error''
       (editor_run [FileSelect example_file, InsertText 5 5 ''b'', Advance 2000] editor_init)
    in hasChanges s' \<and> content s' = ''let ab'' \<and> \<not> isSaving s' \<and>
       console_errors s' = [''Error saving file: Network Error''])"
proof -
  let ?d = "editor_run [FileSelect example_file, InsertText 5 5 ''b''] editor_init"
  let ?v = "editor_run [FileSelect example_file, InsertText 5 5 ''b'', Advance 2000] editor_init"
  have rd: "editor_reachable ?d" and rv: "editor_reachable ?v"
    by (rule editor_reachable_run [OF editor_reachable_init])+
  have d: "hasChanges ?d" "editorFile ?d = Some (0, example_file)" "pending_saves ?d = []"
    "content ?d = ''let ab''" "updateFile_calls ?d = []" "console_errors ?d = []"
    unfolding dirty_state by simp_all
  have v: "0 < length (pending_saves ?v)" "hasChanges ?v" "content ?v = ''let ab''"
    "console_errors ?v = []"
    unfolding saving_state by simp_all
  have p: "file_path (snd (0::nat, example_file)) = ''/a.js''"
    by (simp add: example_file_def)
  have d12: "hasChanges ?d \<and> editorFile ?d = Some (0, example_file)"
    using d(1,2) by (rule conjI)
  note t1 = failed_save_keeps_edit [OF rd, of 0 "''Network Error''" "(0, example_file)",
      THEN conjunct2, THEN mp, OF d12]
  have one: "let s1 = manual_save ?d; s2 = save_rejected 0 ''Network Error'' s1
    in updateFile_calls s1 = [(''/a.js'', ''let ab'')] \<and> hasChanges s2 \<and> content s2 = ''let ab'' \<and>
       \<not> isSaving s2 \<and> console_errors s2 = [''Error saving file: Network Error'']"
    using t1 by (simp only: Let_def d p append_Nil list.size) simp
  note t2 = failed_save_keeps_edit [OF rv, of 0 "''Network Error''" "(0, example_file)",
      THEN conjunct1, THEN mp, OF v(1)]
  have two: "let s' = save_rejected 0 ''Network Error'' ?v
    in hasChanges s' \<and> content s' = ''let ab'' \<and> \<not> isSaving s' \<and>
       console_errors s' = [''Error saving file: Network Error'']"
    using t2 by (simp only: Let_def v append_Nil) simp
  from rd rv d(1,2) v(1) one two show ?thesis by (intro conjI)
qed

section \<open>Properties of PathIndex and FileTree\<close>

subsection \<open>Resolving a computed path\<close>

lemma walk_append:
  "walk t cur (xs @ ys) = (case walk t cur xs of None \<Rightarrow> None | Some m \<Rightarrow> walk t m ys)"
  by (induction xs arbitrary: cur) (auto split: option.splits)

lemma find_unique:
  assumes "distinct (map f xs)" and "i \<in> set xs" and "Q i"
  shows "find (\<lambda>c. Q c \<and> f c = f i) xs = Some i"
  using assms
proof (induction xs)
  case Nil
  then show ?case by simp
next
  case (Cons x xs)
  show ?case
  proof (cases "x = i")
    case True
    with Cons.prems show ?thesis by simp
  next
    case False
    with Cons.prems have "i \<in> set xs" by simp
    then have "f i \<in> f ` set xs" by simp
    with Cons.prems(1) have "f x \<noteq> f i" by auto
    with Cons False show ?thesis by simp
  qed
qed

lemma lookup_child_own:
  assumes "ok_names t" and "tree_nodes t p = Some pn" and "i \<in> set (node_children pn)"
    and "tree_nodes t i = Some n"
  shows "lookup_child t (node_children pn) (name_of t i) = Some i"
proof -
  from assms(1,2) have "distinct (map (name_of t) (node_children pn))"
    by (auto simp: ok_names_def)
  then show ?thesis
    unfolding lookup_child_def using assms(3,4)
    by (intro find_unique) simp_all
qed

lemma split_sep_name:
  assumes "CHR ''/'' \<notin> set n"
  shows "split_sep n = [n]" and "split_sep (n @ CHR ''/'' # r) = n # split_sep r"
  using assms by (induction n) (auto split: list.splits)

lemma split_sep_join:
  assumes "\<forall>m \<in> set (n # ns). CHR ''/'' \<notin> set m"
  shows "split_sep (n @ concat (map (\<lambda>m. CHR ''/'' # m) ns)) = n # ns"
  using assms
proof (induction ns arbitrary: n)
  case Nil
  then show ?case by (simp add: split_sep_name)
next
  case (Cons a ns)
  then have "split_sep (a @ concat (map (\<lambda>m. CHR ''/'' # m) ns)) = a # ns" by simp
  with Cons.prems show ?case by (simp add: split_sep_name)
qed

lemma resolve_join_path:
  assumes "\<forall>m \<in> set ns. valid_name m"
  shows "resolve t (join_path ns) =
    (case walk t (tree_root t) ns of None \<Rightarrow> Inl NotFound | Some i \<Rightarrow> Inr i)"
proof (cases ns)
  case Nil
  then show ?thesis by (simp add: join_path_def resolve_def)
next
  case (Cons n ms)
  with assms have v: "n \<noteq> []" and s: "\<forall>m \<in> set (n # ms). CHR ''/'' \<notin> set m"
    by (auto simp: valid_name_def)
  have j: "join_path ns = CHR ''/'' # (n @ concat (map (\<lambda>m. CHR ''/'' # m) ms))"
    by (simp add: join_path_def Cons)
  have ne: "join_path ns \<noteq> ''/''" using v by (simp add: j)
  have "split_sep (n @ concat (map (\<lambda>m. CHR ''/'' # m) ms)) = ns"
    using split_sep_join [OF s] Cons by simp
  then show ?thesis
    using v by (simp add: resolve_def j)
qed

lemma chain_up_root: "chain_up t (tree_root t) = Some []"
  by (subst chain_up.simps) simp

lemma chain_up_child:
  assumes "i \<noteq> tree_root t" and "tree_nodes t i = Some n" and "node_parent n = Some p"
  shows "chain_up t i = Option.bind (chain_up t p) (\<lambda>ch. Some (ch @ [i]))"
  by (subst chain_up.simps) (simp add: assms)

text \<open>
  In a tree that satisfies the invariants, the walk up from a node ends at the root, and
  walking down from the root along the names of the chain comes back to the node.
\<close>

lemma chain_walk:
  assumes "tree_ok t" and "tree_nodes t i = Some n"
  shows "\<exists>ch. chain_up t i = Some ch \<and> (ch = [] \<longleftrightarrow> i = tree_root t) \<and>
           (\<forall>j \<in> set ch. \<exists>m. tree_nodes t j = Some m \<and> j \<noteq> tree_root t) \<and>
           walk t (tree_root t) (map (name_of t) ch) = Some i"
  using assms(2)
proof (induction i arbitrary: n rule: less_induct)
  case (less i)
  show ?case
  proof (cases "i = tree_root t")
    case True
    then show ?thesis by (simp add: chain_up_root)
  next
    case False
    from assms(1) have op: "ok_parent t" and on: "ok_names t" by (simp_all add: tree_ok_def)
    from op less.prems False obtain p pn where
      p: "node_parent n = Some p" "p < i" "tree_nodes t p = Some pn" "node_kind pn = Folder"
        "i \<in> set (node_children pn)"
      unfolding ok_parent_def by blast
    from less.IH [OF p(2) p(3)] obtain ch where
      ch: "chain_up t p = Some ch"
        "\<forall>j \<in> set ch. \<exists>m. tree_nodes t j = Some m \<and> j \<noteq> tree_root t"
        "walk t (tree_root t) (map (name_of t) ch) = Some p"
      by blast
    have c: "chain_up t i = Some (ch @ [i])"
      using chain_up_child [OF False less.prems p(1)] ch(1) by simp
    have l: "lookup_child t (node_children pn) (name_of t i) = Some i"
      using on p(3) p(5) less.prems by (rule lookup_child_own)
    have w: "walk t (tree_root t) (map (name_of t) (ch @ [i])) = Some i"
      using ch(3) p(3,4) l by (simp add: walk_append)
    from c w ch(2) less.prems False show ?thesis by auto
  qed
qed

lemma round_trip_ok:
  assumes "tree_ok t" and "tree_nodes t i = Some n"
  shows "\<exists>path. computePath t i = Inr path \<and> resolve t path = Inr i"
proof -
  from chain_walk [OF assms] obtain ch where
    ch: "chain_up t i = Some ch"
      "\<forall>j \<in> set ch. \<exists>m. tree_nodes t j = Some m \<and> j \<noteq> tree_root t"
      "walk t (tree_root t) (map (name_of t) ch) = Some i"
    by blast
  from assms(1) have op: "ok_parent t" by (simp add: tree_ok_def)
  have v: "\<forall>m \<in> set (map (name_of t) ch). valid_name m"
  proof
    fix m assume "m \<in> set (map (name_of t) ch)"
    then obtain j where j: "j \<in> set ch" "m = name_of t j" by auto
    with ch(2) obtain jn where "tree_nodes t j = Some jn" "j \<noteq> tree_root t" by blast
    with op j show "valid_name m" by (auto simp: ok_parent_def name_of_def)
  qed
  have "computePath t i = Inr (join_path (map (name_of t) ch))"
    using assms(2) ch(1) by (simp add: computePath_def)
  moreover have "resolve t (join_path (map (name_of t) ch)) = Inr i"
    using resolve_join_path [OF v, of t] ch(3) by simp
  ultimately show ?thesis by blast
qed


subsection \<open>The operations keep the invariants\<close>

lemma tree_ok_empty: "tree_ok empty_tree"
  by (simp add: tree_ok_def ok_root_def ok_bound_def ok_parent_def ok_children_def ok_names_def
      empty_tree_def)

lemma lookup_child_Some:
  "lookup_child t cs seg = Some c \<Longrightarrow> c \<in> set cs \<and> tree_nodes t c \<noteq> None \<and> name_of t c = seg"
  by (auto simp: lookup_child_def find_Some_iff)

lemma lookup_child_None:
  "lookup_child t cs seg = None \<Longrightarrow> c \<in> set cs \<Longrightarrow> tree_nodes t c \<noteq> None \<Longrightarrow> name_of t c \<noteq> seg"
  by (auto simp: lookup_child_def find_None_iff)

lemma walk_live:
  "walk t cur segs = Some i \<Longrightarrow> i = cur \<or> tree_nodes t i \<noteq> None"
proof (induction segs arbitrary: cur)
  case Nil
  then show ?case by simp
next
  case (Cons seg segs)
  then obtain n c where c: "tree_nodes t cur = Some n"
      "lookup_child t (node_children n) seg = Some c" "walk t c segs = Some i"
    by (auto split: option.splits if_splits)
  from Cons.IH [OF c(3)] lookup_child_Some [OF c(2)] show ?case by auto
qed

lemma resolve_live:
  assumes "ok_root t" and "resolve t path = Inr i"
  shows "tree_nodes t i \<noteq> None"
proof -
  from assms(2) have "i = tree_root t \<or> (\<exists>segs. walk t (tree_root t) segs = Some i)"
    by (auto simp: resolve_def split: if_splits list.splits option.splits)
  with walk_live have "i = tree_root t \<or> tree_nodes t i \<noteq> None" by blast
  with assms(1) show ?thesis by (auto simp: ok_root_def)
qed

lemma createNode_ok:
  assumes ok: "tree_ok t" and cr: "createNode t parentPath name k c = Inr (t', i)"
  shows "tree_ok t'"
proof -
  let ?k = "tree_next_id t"
  let ?new = "\<lparr>node_name = name, node_kind = k, node_parent = Some p, node_children = [],
      node_content = c\<rparr>"
  from cr obtain p pn where
    vn: "valid_name name" and pl: "tree_nodes t p = Some pn" and pk: "node_kind pn = Folder"
    and lk: "lookup_child t (node_children pn) name = None"
    and t': "t' = t\<lparr>tree_nodes := (tree_nodes t)
               (p \<mapsto> pn\<lparr>node_children := node_children pn @ [tree_next_id t]\<rparr>,
                tree_next_id t \<mapsto>
                  \<lparr>node_name = name, node_kind = k, node_parent = Some p,
                   node_children = [], node_content = c\<rparr>),
             tree_next_id := Suc (tree_next_id t)\<rparr>"
    by (auto simp: createNode_def split: if_splits sum.splits option.splits)
  from ok have r: "ok_root t" and b: "ok_bound t" and pa: "ok_parent t" and ch: "ok_children t"
    and nm: "ok_names t"
    by (simp_all add: tree_ok_def)
  have bound: "j < ?k" if "tree_nodes t j = Some m" for j m
    using b that by (auto simp: ok_bound_def)
  have kd: "tree_nodes t ?k = None"
    using bound [of ?k] by (cases "tree_nodes t ?k") auto
  have pk': "p \<noteq> ?k" using pl kd by auto
  have nodes': "tree_nodes t' j =
      (if j = ?k then Some \<lparr>node_name = name, node_kind = k, node_parent = Some p,
                   node_children = [], node_content = c\<rparr>
       else if j = p then Some (pn\<lparr>node_children := node_children pn @ [?k]\<rparr>)
       else tree_nodes t j)" for j
    by (simp add: t')
  have names: "name_of t' j = (if j = ?k then name else name_of t j)" for j
    using pl by (simp add: name_of_def nodes')
  have root: "tree_root t' = tree_root t" and next': "tree_next_id t' = Suc ?k"
    by (simp_all add: t')
  from r obtain rn where rn: "tree_nodes t (tree_root t) = Some rn" "node_parent rn = None"
      "node_kind rn = Folder"
    by (auto simp: ok_root_def)
  have rk: "tree_root t \<noteq> ?k" using rn kd by auto
  have 1: "ok_root t'"
    using rn rk pl by (auto simp: ok_root_def root nodes')
  have 2: "ok_bound t'"
    unfolding ok_bound_def next'
  proof (intro allI impI)
    fix j m assume "tree_nodes t' j = Some m"
    then have "j = ?k \<or> (\<exists>m'. tree_nodes t j = Some m')"
      using pl by (auto simp: nodes' split: if_splits)
    then show "j < Suc ?k"
    proof
      assume "j = ?k" then show ?thesis by simp
    next
      assume "\<exists>m'. tree_nodes t j = Some m'"
      then obtain m' where "tree_nodes t j = Some m'" ..
      from bound [OF this] show ?thesis by simp
    qed
  qed
  have 3: "ok_parent t'"
    unfolding ok_parent_def root
  proof (intro allI impI)
    fix j m assume a: "tree_nodes t' j = Some m \<and> j \<noteq> tree_root t"
    show "valid_name (node_name m) \<and>
       (\<exists>q qn. node_parent m = Some q \<and> q < j \<and> tree_nodes t' q = Some qn \<and>
          node_kind qn = Folder \<and> j \<in> set (node_children qn))"
    proof (cases "j = ?k")
      case True
      with a have m: "m = \<lparr>node_name = name, node_kind = k, node_parent = Some p,
                   node_children = [], node_content = c\<rparr>"
        by (simp add: nodes')
      have "p < ?k" using bound [OF pl] .
      then show ?thesis
        using True vn pk pk' by (simp add: m nodes')
    next
      case False
      define m0 where "m0 = (if j = p then pn else m)"
      have old: "tree_nodes t j = Some m0"
        using a False pl by (auto simp: nodes' m0_def split: if_splits)
      have same: "node_name m = node_name m0" "node_parent m = node_parent m0"
        using a False by (auto simp: nodes' m0_def split: if_splits)
      from pa old a obtain q qn where
        q: "valid_name (node_name m0)" "node_parent m0 = Some q" "q < j"
          "tree_nodes t q = Some qn" "node_kind qn = Folder" "j \<in> set (node_children qn)"
        unfolding ok_parent_def by blast
      have qk: "q \<noteq> ?k" using q(4) kd by auto
      show ?thesis
      proof (cases "q = p")
        case True
        with q pl have "qn = pn" by simp
        with q True show ?thesis
          using same pk' by (simp add: nodes')
      next
        case False
        with q qk show ?thesis
          using same by (simp add: nodes')
      qed
    qed
  qed
  have 4: "ok_children t'"
    unfolding ok_children_def
  proof (intro allI impI)
    fix q qn x assume a: "tree_nodes t' q = Some qn \<and> x \<in> set (node_children qn)"
    have old_child: "\<exists>cn. tree_nodes t' x = Some cn \<and> node_parent cn = Some q"
      if "tree_nodes t q = Some qn0" and "x \<in> set (node_children qn0)" for qn0
    proof -
      from ch that obtain cn where cn: "tree_nodes t x = Some cn" "node_parent cn = Some q"
        unfolding ok_children_def by blast
      then have "x \<noteq> ?k" using kd by auto
      with cn pl show ?thesis by (auto simp: nodes')
    qed
    show "\<exists>cn. tree_nodes t' x = Some cn \<and> node_parent cn = Some q"
    proof (cases "q = ?k")
      case True
      with a have "node_children qn = []" by (auto simp: nodes')
      with a show ?thesis by simp
    next
      case False
      show ?thesis
      proof (cases "q = p")
        case True
        with a pk' have "x \<in> set (node_children pn) \<or> x = ?k"
          by (auto simp: nodes')
        then show ?thesis
        proof
          assume "x \<in> set (node_children pn)"
          with pl True show ?thesis using old_child by blast
        next
          assume "x = ?k"
          with True show ?thesis by (simp add: nodes')
        qed
      next
        case qp: False
        with a False have "tree_nodes t q = Some qn" by (simp add: nodes')
        with a show ?thesis using old_child by blast
      qed
    qed
  qed
  have old_names: "map (name_of t') cs = map (name_of t) cs"
    if "tree_nodes t q = Some qn0" and "set cs \<subseteq> set (node_children qn0)" for q qn0 cs
  proof -
    have "x \<noteq> ?k" if "x \<in> set cs" for x
    proof -
      from that \<open>set cs \<subseteq> set (node_children qn0)\<close> have "x \<in> set (node_children qn0)" by auto
      with ch \<open>tree_nodes t q = Some qn0\<close> obtain cn where "tree_nodes t x = Some cn"
        unfolding ok_children_def by blast
      with kd show ?thesis by auto
    qed
    then show ?thesis by (simp add: names)
  qed
  have 5: "ok_names t'"
    unfolding ok_names_def
  proof (intro allI impI)
    fix q qn assume a: "tree_nodes t' q = Some qn"
    show "distinct (map (name_of t') (node_children qn))"
    proof (cases "q = ?k")
      case True
      with a have "node_children qn = []" by (auto simp: nodes')
      with a show ?thesis by simp
    next
      case False
      show ?thesis
      proof (cases "q = p")
        case True
        with a pk' have qn: "node_children qn = node_children pn @ [?k]"
          by (auto simp: nodes')
        have d: "distinct (map (name_of t) (node_children pn))"
          using nm pl by (auto simp: ok_names_def)
        have o: "map (name_of t') (node_children pn) = map (name_of t) (node_children pn)"
          by (rule old_names [OF pl]) simp
        have "name \<notin> set (map (name_of t) (node_children pn))"
        proof
          assume "name \<in> set (map (name_of t) (node_children pn))"
          then obtain x where x: "x \<in> set (node_children pn)" "name_of t x = name" by auto
          with ch pl obtain cn where "tree_nodes t x = Some cn"
            unfolding ok_children_def by blast
          with lookup_child_None [OF lk x(1)] x(2) show False by simp
        qed
        then have "distinct (map (name_of t) (node_children pn) @ [name])"
          using d by simp
        moreover have "name_of t' ?k = name" by (simp add: names)
        ultimately have "distinct (map (name_of t') (node_children pn) @ [name_of t' ?k])"
          by (simp only: o)
        then show ?thesis by (simp add: qn)
      next
        case qp: False
        with a False have q: "tree_nodes t q = Some qn" by (simp add: nodes')
        then have "distinct (map (name_of t) (node_children qn))"
          using nm by (auto simp: ok_names_def)
        moreover have "map (name_of t') (node_children qn) = map (name_of t) (node_children qn)"
          by (rule old_names [OF q]) simp
        ultimately show ?thesis by (simp only:)
      qed
    qed
  qed
  from 1 2 3 4 5 show ?thesis by (simp add: tree_ok_def)
qed


lemma distinct_map_upd:
  assumes "distinct (map f xs)" and "y \<notin> f ` (set xs - {i})"
  shows "distinct (map (\<lambda>j. if j = i then y else f j) xs)"
  using assms
proof (induction xs)
  case Nil
  then show ?case by simp
next
  case (Cons x xs)
  then have ih: "distinct (map (\<lambda>j. if j = i then y else f j) xs)" by auto
  have "(if x = i then y else f x) \<notin> (\<lambda>j. if j = i then y else f j) ` set xs"
  proof
    assume "(if x = i then y else f x) \<in> (\<lambda>j. if j = i then y else f j) ` set xs"
    then obtain z where z: "z \<in> set xs" "(if x = i then y else f x) = (if z = i then y else f z)"
      by auto
    from Cons.prems(1) z(1) have fz: "f x \<noteq> f z" by auto
    then have xz: "x \<noteq> z" by auto
    show False
    proof (cases "x = i")
      case True
      with xz z have "y = f z" "z \<noteq> i" by auto
      with z(1) Cons.prems(2) show False by auto
    next
      case False
      show False
      proof (cases "z = i")
        case True
        with False z have "f x = y" by simp
        with False Cons.prems(2) show False by auto
      next
        case zi: False
        with False z fz show False by simp
      qed
    qed
  qed
  with ih show ?case by simp
qed

lemma update_node_ok:
  assumes ok: "tree_ok t" and live: "tree_nodes t i = Some n"
    and same: "node_parent n' = node_parent n" "node_kind n' = node_kind n"
      "node_children n' = node_children n"
    and valid: "i = tree_root t \<or> valid_name (node_name n')"
    and fresh: "\<And>p pn. node_parent n = Some p \<Longrightarrow> tree_nodes t p = Some pn \<Longrightarrow>
        node_name n' \<notin> name_of t ` (set (node_children pn) - {i})"
  shows "tree_ok (t\<lparr>tree_nodes := (tree_nodes t)(i \<mapsto> n')\<rparr>)"
proof -
  let ?t' = "t\<lparr>tree_nodes := (tree_nodes t)(i \<mapsto> n')\<rparr>"
  from ok have r: "ok_root t" and b: "ok_bound t" and pa: "ok_parent t" and ch: "ok_children t"
    and nm: "ok_names t"
    by (simp_all add: tree_ok_def)
  have nodes': "tree_nodes ?t' j = (if j = i then Some n' else tree_nodes t j)" for j
    by simp
  have names: "name_of ?t' = (\<lambda>j. if j = i then node_name n' else name_of t j)"
    by (rule ext) (simp add: name_of_def)
  have root: "tree_root ?t' = tree_root t" and next': "tree_next_id ?t' = tree_next_id t"
    by simp_all
  have 1: "ok_root ?t'"
    using r live same by (auto simp: ok_root_def)
  have 2: "ok_bound ?t'"
    using b live by (auto simp: ok_bound_def)
  have 3: "ok_parent ?t'"
    unfolding ok_parent_def root
  proof (intro allI impI)
    fix j m assume a: "tree_nodes ?t' j = Some m \<and> j \<noteq> tree_root t"
    define m0 where "m0 = (if j = i then n else m)"
    have old: "tree_nodes t j = Some m0"
      using a live by (auto simp: m0_def split: if_splits)
    have mp: "node_parent m = node_parent m0"
      using a same by (auto simp: m0_def split: if_splits)
    from pa old a obtain q qn where
      q: "valid_name (node_name m0)" "node_parent m0 = Some q" "q < j"
        "tree_nodes t q = Some qn" "node_kind qn = Folder" "j \<in> set (node_children qn)"
      unfolding ok_parent_def by blast
    have v: "valid_name (node_name m)"
      using a valid q(1) by (auto simp: m0_def split: if_splits)
    have "\<exists>qn'. tree_nodes ?t' q = Some qn' \<and> node_kind qn' = Folder \<and> j \<in> set (node_children qn')"
    proof (cases "q = i")
      case True
      with q live have "qn = n" by simp
      with q same True show ?thesis by simp
    next
      case False
      with q show ?thesis by simp
    qed
    with v mp q(2,3) show "valid_name (node_name m) \<and>
       (\<exists>p pn. node_parent m = Some p \<and> p < j \<and> tree_nodes ?t' p = Some pn \<and>
          node_kind pn = Folder \<and> j \<in> set (node_children pn))"
      by auto
  qed
  have kids: "\<exists>qn0. tree_nodes t q = Some qn0 \<and> node_children qn0 = node_children qn"
    if "tree_nodes ?t' q = Some qn" for q qn
    using that live same by (auto split: if_splits)
  have 4: "ok_children ?t'"
    unfolding ok_children_def
  proof (intro allI impI)
    fix q qn x assume a: "tree_nodes ?t' q = Some qn \<and> x \<in> set (node_children qn)"
    with kids obtain qn0 where "tree_nodes t q = Some qn0" "x \<in> set (node_children qn0)"
      by force
    with ch obtain cn where cn: "tree_nodes t x = Some cn" "node_parent cn = Some q"
      unfolding ok_children_def by blast
    show "\<exists>cn. tree_nodes ?t' x = Some cn \<and> node_parent cn = Some q"
    proof (cases "x = i")
      case True
      with cn live have "cn = n" by simp
      with cn same True show ?thesis by simp
    next
      case False
      with cn show ?thesis by simp
    qed
  qed
  have 5: "ok_names ?t'"
    unfolding ok_names_def
  proof (intro allI impI)
    fix q qn assume a: "tree_nodes ?t' q = Some qn"
    with kids obtain qn0 where q0: "tree_nodes t q = Some qn0"
        "node_children qn0 = node_children qn"
      by force
    have d: "distinct (map (name_of t) (node_children qn))"
      using nm q0 unfolding ok_names_def by metis
    show "distinct (map (name_of ?t') (node_children qn))"
    proof (cases "i \<in> set (node_children qn)")
      case True
      with ch q0 live have "node_parent n = Some q"
        unfolding ok_children_def by force
      from fresh [OF this q0(1)] q0(2)
      have "node_name n' \<notin> name_of t ` (set (node_children qn) - {i})" by simp
      from distinct_map_upd [OF d this] show ?thesis by (simp only: names)
    next
      case False
      then have "map (\<lambda>j. if j = i then node_name n' else name_of t j) (node_children qn) =
          map (name_of t) (node_children qn)"
        by (intro map_cong) auto
      with d show ?thesis by (simp only: names)
    qed
  qed
  from 1 2 3 4 5 show ?thesis by (simp add: tree_ok_def)
qed

lemma parent_lists_child:
  assumes "tree_ok t" and "tree_nodes t i = Some n" and "node_parent n = Some p"
    and "tree_nodes t p = Some pn"
  shows "i \<in> set (node_children pn)" and "i \<noteq> tree_root t"
proof -
  from assms(1) have r: "ok_root t" and pa: "ok_parent t" by (simp_all add: tree_ok_def)
  show ne: "i \<noteq> tree_root t"
    using r assms(2,3) by (auto simp: ok_root_def)
  from pa assms(2) ne obtain q qn where "node_parent n = Some q" "tree_nodes t q = Some qn"
      "i \<in> set (node_children qn)"
    unfolding ok_parent_def by blast
  with assms(3,4) show "i \<in> set (node_children pn)" by simp
qed

lemma writeContent_ok:
  assumes "tree_ok t" and "writeContent t path c = Inr t'"
  shows "tree_ok t'"
proof -
  from assms(2) obtain i n where
    n: "tree_nodes t i = Some n" and t': "t' = t\<lparr>tree_nodes := (tree_nodes t)(i \<mapsto> n\<lparr>node_content := c\<rparr>)\<rparr>"
    by (auto simp: writeContent_def split: sum.splits option.splits if_splits)
  from assms(1) have pa: "ok_parent t" and nm: "ok_names t" and ch: "ok_children t"
    by (simp_all add: tree_ok_def)
  have v: "i = tree_root t \<or> valid_name (node_name (n\<lparr>node_content := c\<rparr>))"
    using pa n by (auto simp: ok_parent_def)
  have f: "node_name (n\<lparr>node_content := c\<rparr>) \<notin> name_of t ` (set (node_children pn) - {i})"
    if "node_parent n = Some p" and "tree_nodes t p = Some pn" for p pn
  proof
    assume "node_name (n\<lparr>node_content := c\<rparr>) \<in> name_of t ` (set (node_children pn) - {i})"
    then have "node_name n \<in> name_of t ` (set (node_children pn) - {i})" by simp
    then obtain x where x0: "node_name n = name_of t x" "x \<in> set (node_children pn) - {i}"
      by (rule imageE)
    have "name_of t i = node_name n" by (simp add: name_of_def n)
    with x0 have x: "x \<in> set (node_children pn)" "x \<noteq> i" "name_of t x = name_of t i"
      by simp_all
    from assms(1) n that have "i \<in> set (node_children pn)"
      by (rule parent_lists_child)
    moreover from nm that have "distinct (map (name_of t) (node_children pn))"
      by (auto simp: ok_names_def)
    ultimately show False using x by (metis distinct_map inj_onD)
  qed
  show ?thesis
    unfolding t' using assms(1) n _ _ _ v f by (rule update_node_ok) simp_all
qed


lemma renameNode_ok:
  assumes "tree_ok t" and "renameNode t path newName = Inr t'"
  shows "tree_ok t'"
proof -
  from assms(2) obtain i n where
    vn: "valid_name newName" and n: "tree_nodes t i = Some n"
    and lk: "lookup_child t
        (case node_parent n of
           None \<Rightarrow> []
         | Some p \<Rightarrow> (case tree_nodes t p of
                        None \<Rightarrow> []
                      | Some pn \<Rightarrow> filter (\<lambda>c. c \<noteq> i) (node_children pn))) newName = None"
    and t': "t' = t\<lparr>tree_nodes := (tree_nodes t)(i \<mapsto> n\<lparr>node_name := newName\<rparr>)\<rparr>"
    by (auto simp: renameNode_def Let_def split: sum.splits option.splits if_splits)
  from assms(1) have ch: "ok_children t" by (simp add: tree_ok_def)
  have v: "i = tree_root t \<or> valid_name (node_name (n\<lparr>node_name := newName\<rparr>))"
    using vn by simp
  have f: "node_name (n\<lparr>node_name := newName\<rparr>) \<notin> name_of t ` (set (node_children pn) - {i})"
    if p: "node_parent n = Some p" "tree_nodes t p = Some pn" for p pn
  proof
    assume "node_name (n\<lparr>node_name := newName\<rparr>) \<in> name_of t ` (set (node_children pn) - {i})"
    then have "newName \<in> name_of t ` (set (node_children pn) - {i})" by simp
    then obtain x where x: "newName = name_of t x" "x \<in> set (node_children pn) - {i}"
      by (rule imageE)
    then have xs: "x \<in> set (filter (\<lambda>c. c \<noteq> i) (node_children pn))" by simp
    from x ch p(2) obtain cn where "tree_nodes t x = Some cn"
      unfolding ok_children_def by blast
    then have "tree_nodes t x \<noteq> None" by simp
    from lk have "lookup_child t (filter (\<lambda>c. c \<noteq> i) (node_children pn)) newName = None"
      by (simp add: p)
    from lookup_child_None [OF this xs \<open>tree_nodes t x \<noteq> None\<close>] x(1) show False by simp
  qed
  show ?thesis
    unfolding t' using assms(1) n _ _ _ v f by (rule update_node_ok) simp_all
qed

lemma chain_up_dead:
  assumes "ok_root t" and "tree_nodes t j = None"
  shows "chain_up t j = None"
proof -
  from assms have "j \<noteq> tree_root t" by (auto simp: ok_root_def)
  then show ?thesis by (subst chain_up.simps) (simp add: assms(2))
qed

lemma under_root: "\<not> under t i (tree_root t)"
  by (simp add: under_def chain_up_root)

lemma under_dead:
  assumes "ok_root t" and "tree_nodes t j = None"
  shows "\<not> under t i j"
  by (simp add: under_def chain_up_dead [OF assms])

lemma under_step:
  assumes "tree_ok t" and "tree_nodes t j = Some m" and "node_parent m = Some q"
  shows "under t i j = (j = i \<or> under t i q)"
proof -
  from assms(1) have pa: "ok_parent t" and r: "ok_root t" by (simp_all add: tree_ok_def)
  have ne: "j \<noteq> tree_root t"
    using r assms(2,3) by (auto simp: ok_root_def)
  from pa assms(2) ne obtain q' qn where "node_parent m = Some q'" "tree_nodes t q' = Some qn"
    unfolding ok_parent_def by blast
  with assms(3) have "tree_nodes t q = Some qn" by simp
  from chain_walk [OF assms(1) this] obtain ch where ch: "chain_up t q = Some ch" by blast
  have "chain_up t j = Some (ch @ [j])"
    using chain_up_child [OF ne assms(2,3)] ch by simp
  with ch show ?thesis by (auto simp: under_def)
qed

lemma deleteNode_ok:
  assumes ok: "tree_ok t" and del: "deleteNode t path = Inr t'"
  shows "tree_ok t'"
proof -
  from del obtain i where
    ir: "i \<noteq> tree_root t"
    and t': "t' = t\<lparr>tree_nodes := (\<lambda>j.
                     if under t i j then None
                     else map_option
                            (\<lambda>n. n\<lparr>node_children := filter (\<lambda>c. c \<noteq> i) (node_children n)\<rparr>)
                            (tree_nodes t j))\<rparr>"
    by (auto simp: deleteNode_def split: sum.splits if_splits)
  from ok have r: "ok_root t" and b: "ok_bound t" and pa: "ok_parent t" and ch: "ok_children t"
    and nm: "ok_names t"
    by (simp_all add: tree_ok_def)
  have root: "tree_root t' = tree_root t" and next': "tree_next_id t' = tree_next_id t"
    by (simp_all add: t')
  have nodes': "tree_nodes t' j =
      (if under t i j then None
       else map_option (\<lambda>n. n\<lparr>node_children := filter (\<lambda>c. c \<noteq> i) (node_children n)\<rparr>)
              (tree_nodes t j))" for j
    by (simp add: t')
  have alive: "\<not> under t i j \<and>
      (\<exists>m0. tree_nodes t j = Some m0 \<and>
         m = m0\<lparr>node_children := filter (\<lambda>c. c \<noteq> i) (node_children m0)\<rparr>)"
    if "tree_nodes t' j = Some m" for j m
    using that by (auto simp: nodes' split: if_splits)
  have keep: "tree_nodes t' j =
      Some (m0\<lparr>node_children := filter (\<lambda>c. c \<noteq> i) (node_children m0)\<rparr>)"
    if "\<not> under t i j" and "tree_nodes t j = Some m0" for j m0
    using that by (simp add: nodes')
  have names: "name_of t' j = name_of t j" if "\<not> under t i j" for j
    using that by (cases "tree_nodes t j") (simp_all add: name_of_def nodes')
  have child_kept: "\<not> under t i x \<and> (\<exists>cn. tree_nodes t x = Some cn \<and> node_parent cn = Some q)"
    if "\<not> under t i q" and "tree_nodes t q = Some qn0" and "x \<in> set (node_children qn0)"
      and "x \<noteq> i" for q qn0 x
  proof -
    from ch that(2,3) obtain cn where cn: "tree_nodes t x = Some cn" "node_parent cn = Some q"
      unfolding ok_children_def by blast
    from under_step [OF ok cn, of i] that(1,4) have "\<not> under t i x" by simp
    with cn show ?thesis by blast
  qed
  have 1: "ok_root t'"
  proof -
    from r obtain rn where "tree_nodes t (tree_root t) = Some rn" "node_parent rn = None"
        "node_kind rn = Folder"
      by (auto simp: ok_root_def)
    with keep [OF under_root, of rn] show ?thesis
      by (simp add: ok_root_def root)
  qed
  have 2: "ok_bound t'"
    unfolding ok_bound_def next'
  proof (intro allI impI)
    fix j m assume "tree_nodes t' j = Some m"
    from alive [OF this] obtain m0 where "tree_nodes t j = Some m0" by blast
    with b show "j < tree_next_id t" by (auto simp: ok_bound_def)
  qed
  have 3: "ok_parent t'"
    unfolding ok_parent_def root
  proof (intro allI impI)
    fix j m assume a: "tree_nodes t' j = Some m \<and> j \<noteq> tree_root t"
    from a alive obtain m0 where m0: "\<not> under t i j" "tree_nodes t j = Some m0"
        "m = m0\<lparr>node_children := filter (\<lambda>c. c \<noteq> i) (node_children m0)\<rparr>"
      by blast
    from pa m0(2) a obtain q qn where
      q: "valid_name (node_name m0)" "node_parent m0 = Some q" "q < j"
        "tree_nodes t q = Some qn" "node_kind qn = Folder" "j \<in> set (node_children qn)"
      unfolding ok_parent_def by blast
    from under_step [OF ok m0(2) q(2), of i] m0(1) have ji: "j \<noteq> i" and uq: "\<not> under t i q"
      by simp_all
    from keep [OF uq q(4)] q(5,6) ji
    have "\<exists>qn'. tree_nodes t' q = Some qn' \<and> node_kind qn' = Folder \<and> j \<in> set (node_children qn')"
      by simp
    with q(1,2,3) m0(3) show "valid_name (node_name m) \<and>
       (\<exists>p pn. node_parent m = Some p \<and> p < j \<and> tree_nodes t' p = Some pn \<and>
          node_kind pn = Folder \<and> j \<in> set (node_children pn))"
      by auto
  qed
  have 4: "ok_children t'"
    unfolding ok_children_def
  proof (intro allI impI)
    fix q qn x assume a: "tree_nodes t' q = Some qn \<and> x \<in> set (node_children qn)"
    from a alive obtain qn0 where q0: "\<not> under t i q" "tree_nodes t q = Some qn0"
        "qn = qn0\<lparr>node_children := filter (\<lambda>c. c \<noteq> i) (node_children qn0)\<rparr>"
      by blast
    with a have x: "x \<in> set (node_children qn0)" "x \<noteq> i" by simp_all
    from child_kept [OF q0(1,2) x] obtain cn where
      cn: "\<not> under t i x" "tree_nodes t x = Some cn" "node_parent cn = Some q"
      by blast
    from keep [OF cn(1,2)] cn(3)
    show "\<exists>cn. tree_nodes t' x = Some cn \<and> node_parent cn = Some q" by simp
  qed
  have 5: "ok_names t'"
    unfolding ok_names_def
  proof (intro allI impI)
    fix q qn assume a: "tree_nodes t' q = Some qn"
    from a alive obtain qn0 where q0: "\<not> under t i q" "tree_nodes t q = Some qn0"
        "qn = qn0\<lparr>node_children := filter (\<lambda>c. c \<noteq> i) (node_children qn0)\<rparr>"
      by blast
    have d: "distinct (map (name_of t) (node_children qn0))"
      using nm q0(2) unfolding ok_names_def by blast
    have "map (name_of t') (filter (\<lambda>c. c \<noteq> i) (node_children qn0)) =
        map (name_of t) (filter (\<lambda>c. c \<noteq> i) (node_children qn0))"
    proof (rule map_cong [OF refl])
      fix x assume "x \<in> set (filter (\<lambda>c. c \<noteq> i) (node_children qn0))"
      then have "x \<in> set (node_children qn0)" "x \<noteq> i" by simp_all
      from child_kept [OF q0(1,2) this] have "\<not> under t i x" by blast
      then show "name_of t' x = name_of t x" by (rule names)
    qed
    moreover have "distinct (map (name_of t) (filter (\<lambda>c. c \<noteq> i) (node_children qn0)))"
      using d by (rule distinct_map_filter)
    ultimately have "distinct (map (name_of t') (filter (\<lambda>c. c \<noteq> i) (node_children qn0)))"
      by (simp only:)
    moreover have "node_children qn = filter (\<lambda>c. c \<noteq> i) (node_children qn0)"
      by (simp add: q0(3))
    ultimately show "distinct (map (name_of t') (node_children qn))"
      by (simp only:)
  qed
  from 1 2 3 4 5 show ?thesis by (simp add: tree_ok_def)
qed

lemma reachable_tree_ok: "reachable_tree t \<Longrightarrow> tree_ok t"
proof (induction rule: reachable_tree.induct)
  case reachable_empty
  show ?case by (rule tree_ok_empty)
next
  case (reachable_create t parentPath name k c t' i)
  then show ?case using createNode_ok by blast
next
  case (reachable_write t path c t')
  then show ?case using writeContent_ok by blast
next
  case (reachable_rename t path newName t')
  then show ?case using renameNode_ok by blast
next
  case (reachable_delete t path t')
  then show ?case using deleteNode_ok by blast
qed


subsection \<open>The round-trip law\<close>

text \<open>
  Claim C9. For every tree built from the empty root by \<open>createNode\<close>, \<open>writeContent\<close>,
  \<open>renameNode\<close> and \<open>deleteNode\<close>, and every id of a node in it, \<open>computePath\<close> returns
  a path and \<open>resolve\<close> of that path returns the same id.
\<close>

theorem path_round_trip:
  assumes "reachable_tree t" and "tree_nodes t i = Some n"
  shows "\<exists>path. computePath t i = Inr path \<and> resolve t path = Inr i"
  using assms reachable_tree_ok round_trip_ok by blast

text \<open>
  The law in the seeded workspace: the file with id 2 has the path
  \<open>/project/script.js\<close>, which resolves to 2.
\<close>

lemma example_project_reachable: "reachable_tree example_project"
proof -
  have "\<not> isl (createNode empty_tree ''/'' ''project'' Folder [])"
    by code_simp
  then obtain r where r: "createNode empty_tree ''/'' ''project'' Folder [] = Inr r"
    by (cases "createNode empty_tree ''/'' ''project'' Folder []") auto
  then have "createNode empty_tree ''/'' ''project'' Folder [] = Inr (example_folder, snd r)"
    by (simp add: example_folder_def)
  with reachable_empty have f: "reachable_tree example_folder"
    by (rule reachable_create)
  have "\<not> isl (createNode example_folder ''/project'' ''script.js'' File ''let a'')"
    by code_simp
  then obtain q where q: "createNode example_folder ''/project'' ''script.js'' File ''let a'' = Inr q"
    by (cases "createNode example_folder ''/project'' ''script.js'' File ''let a''") auto
  then have "createNode example_folder ''/project'' ''script.js'' File ''let a'' =
      Inr (example_project, snd q)"
    by (simp add: example_project_def)
  with f show ?thesis by (rule reachable_create)
qed

theorem path_round_trip_witness:
  "reachable_tree example_project \<and>
   tree_nodes example_project 2 =
     Some \<lparr>node_name = ''script.js'', node_kind = File, node_parent = Some 1,
           node_children = [], node_content = ''let a''\<rparr> \<and>
   computePath example_project 2 = Inr ''/project/script.js'' \<and>
   resolve example_project ''/project/script.js'' = Inr 2"
proof -
  have n: "tree_nodes example_project 2 =
     Some \<lparr>node_name = ''script.js'', node_kind = File, node_parent = Some 1,
           node_children = [], node_content = ''let a''\<rparr>"
    by code_simp
  have c: "computePath example_project 2 = Inr ''/project/script.js''"
    by code_simp
  from path_round_trip [OF example_project_reachable n] obtain path where
    "computePath example_project 2 = Inr path" "resolve example_project path = Inr 2"
    by blast
  with c have "resolve example_project ''/project/script.js'' = Inr 2" by simp
  with example_project_reachable n c show ?thesis by (intro conjI)
qed

end
